theory Spec2Isabelle
  imports Complex_Main "HOL-Library.Word" "HOL-Library.Signed_Division"
begin

section \<open>Machine data of the PULP DSP kernels\<close>

text \<open>
  The kernels are C functions over \<open>int8_t\<close> vectors with \<open>uint32_t\<close> sizes and an
  \<open>int32_t\<close> accumulator. Fixed-width integers are words: \<open>+\<close> and \<open>*\<close> wrap, \<open>sint\<close>
  reads a word as two's complement. A pointer into a vector is the list of the cells from
  the pointer onwards; \<open>*pSrc++\<close> reads the next cell of that list.

  What C leaves undefined is a value of the model, not an arbitrary number: a shift of a
  32-bit operand by 32 or more, a division by zero, a read or write outside a vector and a
  write through a null pointer each end the run with a \<open>fault\<close>. The one exception is
  the arithmetic itself: an \<open>int32_t\<close> sum that leaves the range wraps around, as the
  addition of the RV32IM target does.
\<close>

type_synonym s8 = "8 word"
type_synonym u8 = "8 word"
type_synonym s32 = "32 word"
type_synonym u32 = "32 word"

datatype fault = ShiftOutOfRange | DivisionByZero | OutOfBounds | NullPointer

definition INT8_MIN :: s8 where
  "INT8_MIN = - 128"

definition INT8_MAX :: s8 where
  "INT8_MAX = 127"

text \<open>\<open>temp = *p\<close> at cell \<open>i\<close> of the vector: the \<open>int8_t\<close> is sign-extended to \<open>int32_t\<close>.\<close>

definition load_s8 :: "s8 list \<Rightarrow> nat \<Rightarrow> fault + s32" where
  "load_s8 mem i = (if i < length mem then Inr (scast (mem ! i)) else Inl OutOfBounds)"

text \<open>\<open>x >> n\<close> with \<open>x\<close> an \<open>int32_t\<close> and \<open>n\<close> a \<open>uint32_t\<close>: arithmetic shift, defined for \<open>n < 32\<close>.\<close>

definition shr_s32 :: "s32 \<Rightarrow> u32 \<Rightarrow> fault + s32" where
  "shr_s32 x n = (if n < 32 then Inr (signed_drop_bit (unat n) x) else Inl ShiftOutOfRange)"

text \<open>\<open>a / b\<close> with \<open>a\<close> an \<open>int32_t\<close> and \<open>b\<close> a \<open>uint32_t\<close>: \<open>a\<close> is converted to
  \<open>uint32_t\<close> and the division is the unsigned one.\<close>

definition div_s32_u32 :: "s32 \<Rightarrow> u32 \<Rightarrow> fault + u32" where
  "div_s32_u32 a b = (if b = 0 then Inl DivisionByZero else Inr (a div b))"

text \<open>\<open>a / b\<close> with both operands \<open>int\<close>: signed division, truncated toward zero.\<close>

definition div_s32 :: "s32 \<Rightarrow> s32 \<Rightarrow> fault + s32" where
  "div_s32 a b = (if b = 0 then Inl DivisionByZero else Inr (word_of_int (sint a sdiv sint b)))"

section \<open>Single-core RMS kernel \<open>plp_rms_q8s_rv32im\<close>\<close>

text \<open>The statement \<open>temp = *pSrc++; accu += (temp * temp) >> fracBits\<close> on cell \<open>i\<close>.\<close>

definition accumulate :: "s8 list \<Rightarrow> u32 \<Rightarrow> nat \<Rightarrow> s32 \<Rightarrow> fault + s32" where
  "accumulate pSrc fracBits i accu =
     (case load_s8 pSrc i of
        Inl e \<Rightarrow> Inl e
      | Inr temp1 \<Rightarrow>
          (case shr_s32 (temp1 * temp1) fracBits of
             Inl e \<Rightarrow> Inl e
           | Inr t \<Rightarrow> Inr (accu + t)))"

text \<open>
  The plain loop \<open>for (int i = 0; i < blockSize; i++)\<close>. The counter is compared as an
  unsigned number and also counts the cells read so far.
\<close>

function rms_loop :: "s8 list \<Rightarrow> u32 \<Rightarrow> u32 \<Rightarrow> nat \<Rightarrow> s32 \<Rightarrow> fault + s32" where
  "rms_loop pSrc blockSize fracBits i accu =
     (if i < unat blockSize then
        (case accumulate pSrc fracBits i accu of
           Inl e \<Rightarrow> Inl e
         | Inr accu' \<Rightarrow> rms_loop pSrc blockSize fracBits (i + 1) accu')
      else Inr accu)"
  by pat_completeness auto
termination
  by (relation "measure (\<lambda>(pSrc, blockSize, fracBits, i, accu). unat blockSize - i)") auto

declare rms_loop.simps [simp del]

text \<open>
  The loop under \<open>PLP_MATH_LOOPUNROLL\<close>: \<open>blockSize >> 1\<close> rounds that read two cells
  each and then add the two terms.
\<close>

function rms_loop_unrolled :: "s8 list \<Rightarrow> u32 \<Rightarrow> u32 \<Rightarrow> nat \<Rightarrow> s32 \<Rightarrow> fault + s32" where
  "rms_loop_unrolled pSrc blockSize fracBits i accu =
     (if i < unat (drop_bit 1 blockSize) then
        (case load_s8 pSrc (2 * i) of
           Inl e \<Rightarrow> Inl e
         | Inr temp1 \<Rightarrow>
             (case load_s8 pSrc (2 * i + 1) of
                Inl e \<Rightarrow> Inl e
              | Inr temp2 \<Rightarrow>
                  (case shr_s32 (temp1 * temp1) fracBits of
                     Inl e \<Rightarrow> Inl e
                   | Inr t1 \<Rightarrow>
                       (case shr_s32 (temp2 * temp2) fracBits of
                          Inl e \<Rightarrow> Inl e
                        | Inr t2 \<Rightarrow>
                            rms_loop_unrolled pSrc blockSize fracBits (i + 1) (accu + t1 + t2)))))
      else Inr accu)"
  by pat_completeness auto
termination
  by (relation "measure (\<lambda>(pSrc, blockSize, fracBits, i, accu). unat (drop_bit 1 blockSize) - i)")
    auto

declare rms_loop_unrolled.simps [simp del]

text \<open>The accumulator when the loops are over; \<open>unroll\<close> stands for \<open>PLP_MATH_LOOPUNROLL\<close>.\<close>

definition rms_accu :: "bool \<Rightarrow> s8 list \<Rightarrow> u32 \<Rightarrow> u32 \<Rightarrow> fault + s32" where
  "rms_accu unroll pSrc blockSize fracBits =
     (if unroll then
        (case rms_loop_unrolled pSrc blockSize fracBits 0 0 of
           Inl e \<Rightarrow> Inl e
         | Inr accu \<Rightarrow>
             if blockSize mod 2 = 1
             then accumulate pSrc fracBits (2 * unat (drop_bit 1 blockSize)) accu
             else Inr accu)
      else rms_loop pSrc blockSize fracBits 0 0)"

text \<open>\<open>*pRes = accu / blockSize\<close>: the \<open>uint32_t\<close> quotient keeps its low eight bits.\<close>

definition plp_rms_q8s_rv32im :: "bool \<Rightarrow> s8 list \<Rightarrow> u32 \<Rightarrow> u32 \<Rightarrow> fault + s8" where
  "plp_rms_q8s_rv32im unroll pSrc blockSize fracBits =
     (case rms_accu unroll pSrc blockSize fracBits of
        Inl e \<Rightarrow> Inl e
      | Inr accu \<Rightarrow>
          (case div_s32_u32 accu blockSize of
             Inl e \<Rightarrow> Inl e
           | Inr q \<Rightarrow> Inr (ucast q)))"

section \<open>Complex conjugate kernel \<open>plp_cmplx_conj_i8_rv32im\<close>\<close>

text \<open>
  The \<open>while (blkCnt > 0U)\<close> loop: \<open>i\<close> counts the cells read from \<open>pSrc\<close>, \<open>dst\<close> holds
  the cells written to \<open>pDst\<close> so far, \<open>sign\<close> is the \<open>int8_t\<close> flag multiplied by \<open>-1\<close>
  in every round.
\<close>

function conj_loop :: "s8 list \<Rightarrow> nat \<Rightarrow> u32 \<Rightarrow> s8 \<Rightarrow> s8 list \<Rightarrow> fault + s8 list" where
  "conj_loop pSrc i blkCnt sign dst =
     (if blkCnt > 0 then
        (if i < length pSrc then
           (let v = (if sign = 1 then pSrc ! i
                     else (let in' = pSrc ! i
                           in if in' = INT8_MIN then INT8_MAX else - in'))
            in conj_loop pSrc (i + 1) (blkCnt - 1) (sign * (- 1)) (dst @ [v]))
         else Inl OutOfBounds)
      else Inr dst)"
  by pat_completeness auto
termination
  by (relation "measure (\<lambda>(pSrc, i, blkCnt, sign, dst). unat blkCnt)")
    (auto simp: unat_minus_one word_greater_zero_iff unat_gt_0)

declare conj_loop.simps [simp del]

definition plp_cmplx_conj_i8_rv32im :: "s8 list \<Rightarrow> u32 \<Rightarrow> fault + s8 list" where
  "plp_cmplx_conj_i8_rv32im pSrc numSamples = conj_loop pSrc 0 (2 * numSamples) 1 []"

section \<open>Per-core worker \<open>plp_rms_q8p_xpulpv2\<close>\<close>

text \<open>
  The task descriptor. Its field \<open>pRes\<close> points to the results buffer, the one piece of
  memory the workers write: the buffer is the state the workers pass on, \<open>None\<close> when the
  pointer is null.
\<close>

record plp_rms_instance_q8 =
  pSrc :: "s8 list"
  blockSize :: u32
  fracBits :: u32
  nPE :: u8

text \<open>
  Lines 52 to 62 of the worker for the core \<open>core_id\<close> (the value of \<open>rt_core_id()\<close>): the
  offset \<open>rt_core_id() * blockSizeP\<close> of its slice and the slice length \<open>blockSizeC\<close>. All
  of it is \<open>uint32_t\<close> arithmetic, but for the \<open>int\<close> comparison with \<open>nPE - 1\<close>.
\<close>

definition worker_slice :: "plp_rms_instance_q8 \<Rightarrow> nat \<Rightarrow> fault + (u32 \<times> u32)" where
  "worker_slice S core_id =
     (if nPE S = 0 then Inl DivisionByZero
      else
        (let blockSizeP = (blockSize S + ucast (nPE S) - 1) div ucast (nPE S)
         in if int core_id = uint (nPE S) - 1 then
              (if blockSize S mod ucast (nPE S) \<noteq> 0 then
                 (if blockSizeP = 0 then Inl DivisionByZero
                  else Inr (of_nat core_id * blockSizeP, blockSize S mod blockSizeP))
               else Inr (of_nat core_id * blockSizeP, blockSizeP))
            else Inr (of_nat core_id * blockSizeP, blockSizeP)))"

text \<open>\<open>*(pRes + i) = v\<close> on the results buffer.\<close>

definition store_s8 :: "s8 list option \<Rightarrow> nat \<Rightarrow> s8 \<Rightarrow> fault + s8 list option" where
  "store_s8 buf i v =
     (case buf of
        None \<Rightarrow> Inl NullPointer
      | Some cells \<Rightarrow> if i < length cells then Inr (Some (cells[i := v])) else Inl OutOfBounds)"

text \<open>
  The single-core kernel \<open>plp_rms_q8s_xpulpv2\<close> that the worker calls is not among the
  sources, so the worker and the dispatcher take the kernel as the parameter \<open>k\<close>; it gets
  the cells from its \<open>pSrc\<close> onwards, \<open>blockSize\<close> and \<open>fracBits\<close>, and returns what it
  stores at its \<open>pRes\<close>.
\<close>

type_synonym kernel = "s8 list \<Rightarrow> u32 \<Rightarrow> u32 \<Rightarrow> fault + s8"

text \<open>The partial result of one core: the kernel on the core's slice.\<close>

definition worker_partial :: "kernel \<Rightarrow> plp_rms_instance_q8 \<Rightarrow> nat \<Rightarrow> fault + s8" where
  "worker_partial k S core_id =
     (case worker_slice S core_id of
        Inl e \<Rightarrow> Inl e
      | Inr (off, blockSizeC) \<Rightarrow> k (drop (unat off) (pSrc S)) blockSizeC (fracBits S))"

definition plp_rms_q8p_xpulpv2 ::
    "kernel \<Rightarrow> plp_rms_instance_q8 \<Rightarrow> nat \<Rightarrow> s8 list option \<Rightarrow> fault + s8 list option" where
  "plp_rms_q8p_xpulpv2 k S core_id buf =
     (case worker_partial k S core_id of
        Inl e \<Rightarrow> Inl e
      | Inr r \<Rightarrow> store_s8 buf core_id r)"

section \<open>Parallel dispatcher \<open>plp_rms_q8_parallel\<close>\<close>

text \<open>
  What the dispatcher asks of the runtime: the cluster the caller runs on
  (\<open>rt_cluster_id()\<close>), the constant \<open>ARCHI_FC_CID\<close> of the fabric controller, whether
  \<open>rt_alloc\<close> returns memory or a null pointer, and what the cells of fresh memory hold.
\<close>

record runtime =
  rt_cluster_id :: nat
  ARCHI_FC_CID :: nat
  alloc_succeeds :: bool
  fresh_cell :: "nat \<Rightarrow> s8"

definition rt_alloc :: "runtime \<Rightarrow> nat \<Rightarrow> s8 list option" where
  "rt_alloc rt n = (if alloc_succeeds rt then Some (map (fresh_cell rt) [0..<n]) else None)"

text \<open>
  \<open>rt_team_fork\<close> and \<open>rt_team_barrier\<close> belong to the PULP runtime, not to the library.
  The fork starts the entry function once on each core of the team, the cores \<open>0\<close> to
  \<open>nPE - 1\<close>, each with its own \<open>rt_core_id()\<close>, and the caller resumes when all have
  passed the barrier. Every worker writes its own slot only and reads the source only, so
  the workers are run one after the other, in the order of the core identities; a fault of
  one worker is the fault of the call. The team is an argument of \<open>rt_team_fork\<close>: what
  the runtime starts for a team size of 0 is not fixed here, and no claim rests on it.
\<close>

fun rt_team_fork :: "(nat \<Rightarrow> 'm \<Rightarrow> fault + 'm) \<Rightarrow> nat list \<Rightarrow> 'm \<Rightarrow> fault + 'm" where
  "rt_team_fork entry [] m = Inr m"
| "rt_team_fork entry (c # cs) m =
     (case entry c m of
        Inl e \<Rightarrow> Inl e
      | Inr m' \<Rightarrow> rt_team_fork entry cs m')"

text \<open>The loop \<open>for (uint8_t i = 0; i < nPE; ++i) accu += *(resultsBuffer + i)\<close>.\<close>

function collect_loop :: "s8 list \<Rightarrow> u8 \<Rightarrow> nat \<Rightarrow> s32 \<Rightarrow> fault + s32" where
  "collect_loop cells n i accu =
     (if i < unat n then
        (case load_s8 cells i of
           Inl e \<Rightarrow> Inl e
         | Inr v \<Rightarrow> collect_loop cells n (i + 1) (accu + v))
      else Inr accu)"
  by pat_completeness auto
termination
  by (relation "measure (\<lambda>(cells, n, i, accu). unat n - i)") auto

declare collect_loop.simps [simp del]

text \<open>
  Lines 111 to 121: with more than one core the sum of the slots is divided by \<open>nPE\<close>
  (both operands are \<open>int\<close>) and stored as \<open>int8_t\<close>; otherwise the cell \<open>resultsBuffer\<close>
  points to is copied, \<open>int8_t\<close> to \<open>int8_t\<close>.
\<close>

definition collect :: "s8 list option \<Rightarrow> u8 \<Rightarrow> fault + s8" where
  "collect buf n =
     (case buf of
        None \<Rightarrow> Inl NullPointer
      | Some cells \<Rightarrow>
          if n > 1 then
            (case collect_loop cells n 0 0 of
               Inl e \<Rightarrow> Inl e
             | Inr accu \<Rightarrow>
                 (case div_s32 accu (ucast n) of
                    Inl e \<Rightarrow> Inl e
                  | Inr q \<Rightarrow> Inr (ucast q)))
          else (if 0 < length cells then Inr (cells ! 0) else Inl OutOfBounds))"

text \<open>
  What a call leaves behind: the content of the caller's cell \<open>*pRes\<close>, the lines printed,
  the sizes of the buffers allocated and the sizes of the teams forked.
\<close>

record outcome =
  out :: s8
  printed :: "string list"
  allocated :: "nat list"
  forked :: "nat list"

definition diagnostic :: string where
  "diagnostic = ''parallel processing supported only for cluster side'' @ [CHR 0x0A]"

text \<open>
  The dispatcher. \<open>src\<close>, \<open>len\<close>, \<open>shift\<close> and \<open>cores\<close> are its arguments \<open>pSrc\<close>,
  \<open>blockSize\<close>, \<open>fracBits\<close> and \<open>nPE\<close>; \<open>res\<close> is what the caller's cell \<open>*pRes\<close> holds
  when the call starts. With one core or none \<open>resultsBuffer\<close> is \<open>pRes\<close> itself.
\<close>

definition plp_rms_q8_parallel ::
    "kernel \<Rightarrow> runtime \<Rightarrow> s8 list \<Rightarrow> u32 \<Rightarrow> u32 \<Rightarrow> u8 \<Rightarrow> s8 \<Rightarrow> fault + outcome" where
  "plp_rms_q8_parallel k rt src len shift cores res =
     (if rt_cluster_id rt = ARCHI_FC_CID rt then
        Inr \<lparr>out = res, printed = [diagnostic], allocated = [], forked = []\<rparr>
      else
        (let resultsBuffer = (if cores > 1 then rt_alloc rt (unat cores) else Some [res]);
             S = \<lparr>pSrc = src, blockSize = len, fracBits = shift, nPE = cores\<rparr>
         in case rt_team_fork (plp_rms_q8p_xpulpv2 k S) [0..<unat cores] resultsBuffer of
              Inl e \<Rightarrow> Inl e
            | Inr buf \<Rightarrow>
                (case collect buf cores of
                   Inl e \<Rightarrow> Inl e
                 | Inr v \<Rightarrow>
                     Inr \<lparr>out = v, printed = [],
                          allocated = (if cores > 1 then [unat cores] else []),
                          forked = [unat cores]\<rparr>)))"

section \<open>The specification's formulas\<close>

text \<open>One term \<open>sample^2 >> fracBits\<close> of the sum, and the sum over the first \<open>n\<close> samples.\<close>

definition sq_term :: "s8 \<Rightarrow> nat \<Rightarrow> int" where
  "sq_term x fb = (sint x * sint x) div 2 ^ fb"

definition sq_sum :: "s8 list \<Rightarrow> nat \<Rightarrow> nat \<Rightarrow> int" where
  "sq_sum xs n fb = (\<Sum>x\<leftarrow>take n xs. sq_term x fb)"

text \<open>
  The ceiling of \<open>a / b\<close>: \<open>div\<close> on \<open>int\<close> rounds down, so the negated quotient of \<open>- a\<close>
  rounds up.
\<close>

definition ceil_div :: "nat \<Rightarrow> nat \<Rightarrow> nat" where
  "ceil_div a b = nat (- (- int a div int b))"

text \<open>The value of a run, if it has one: which fault ended a run is forgotten.\<close>

definition value_of :: "fault + 'a \<Rightarrow> 'a option" where
  "value_of r = (case r of Inl e \<Rightarrow> None | Inr v \<Rightarrow> Some v)"

text \<open>The conjugate of one cell: the real parts sit at the even places.\<close>

definition conj_cell :: "nat \<Rightarrow> s8 \<Rightarrow> s8" where
  "conj_cell i x = (if even i then x else if x = - 128 then 127 else - x)"

definition conj_spec :: "s8 list \<Rightarrow> s8 list" where
  "conj_spec xs = map (\<lambda>i. conj_cell i (xs ! i)) [0..<length xs]"

section \<open>Arithmetic of the squared terms\<close>

lemma sint_s8_bounds: "- 128 \<le> sint (x :: s8) \<and> sint x \<le> 127"
  using sint_ge [of x] sint_lt [of x] by simp

lemma sint_s8_square: "0 \<le> sint (x :: s8) * sint x \<and> sint x * sint x \<le> 16384"
proof -
  have "\<bar>sint x\<bar> \<le> 128" using sint_s8_bounds [of x] by linarith
  then have "\<bar>sint x\<bar> * \<bar>sint x\<bar> \<le> 128 * 128"
    by (intro mult_mono) auto
  then show ?thesis by (simp add: abs_mult_self_eq flip: abs_mult)
qed

lemma sint_s32_of_int:
  "- 2147483648 \<le> k \<Longrightarrow> k < 2147483648 \<Longrightarrow> sint (word_of_int k :: s32) = k"
  by (simp add: sint_sbintrunc' signed_take_bit_int_eq_self)

lemma scast_mult: "(scast (x :: s8) :: s32) * scast x = word_of_int (sint x * sint x)"
  unfolding scast_eq by (simp only: of_int_mult)

lemma square_s32: "sint ((scast (x :: s8) :: s32) * scast x) = sint x * sint x"
proof -
  have "- 2147483648 \<le> sint x * sint x" "sint x * sint x < 2147483648"
    using sint_s8_square [of x] by linarith+
  then show ?thesis unfolding scast_mult by (rule sint_s32_of_int)
qed

lemma shr_square:
  assumes "fb < 32"
  shows "shr_s32 (scast (x :: s8) * scast x) fb = Inr (word_of_int (sq_term x (unat fb)))"
proof -
  have "signed_drop_bit (unat fb) ((scast x :: s32) * scast x)
      = word_of_int (sint (signed_drop_bit (unat fb) ((scast x :: s32) * scast x)))"
    by simp
  also have "\<dots> = word_of_int (sq_term x (unat fb))"
    by (simp only: sint_signed_drop_bit_eq square_s32 drop_bit_eq_div sq_term_def)
  finally show ?thesis using assms by (simp add: shr_s32_def)
qed

lemma int_div_pow_le: "0 \<le> (a :: int) \<Longrightarrow> a div 2 ^ n \<le> a"
  using int_div_le_self [of a "2 ^ n"] by (cases "a = 0") auto

lemma sq_term_bounds: "0 \<le> sq_term x fb \<and> sq_term x fb \<le> 16384"
proof -
  have "sq_term x fb \<le> sint x * sint x"
    unfolding sq_term_def using sint_s8_square [of x] by (intro int_div_pow_le) simp
  then show ?thesis using sint_s8_square [of x] by (simp add: sq_term_def pos_imp_zdiv_nonneg_iff)
qed

section \<open>The loops of the single-core kernel\<close>

lemma accumulate_eq:
  assumes "i < length src" "fb < 32"
  shows "accumulate src fb i accu = Inr (accu + word_of_int (sq_term (src ! i) (unat fb)))"
  using assms by (simp add: accumulate_def load_s8_def shr_square)

lemma accumulate_Inr_iff:
  "accumulate src fb i accu = Inr r \<longleftrightarrow>
     i < length src \<and> fb < 32 \<and> r = accu + word_of_int (sq_term (src ! i) (unat fb))"
proof (cases "i < length src \<and> fb < 32")
  case True
  then show ?thesis by (auto simp: accumulate_eq)
next
  case False
  then have "\<not> i < length src \<or> \<not> fb < 32" by simp
  then have "\<exists>e. accumulate src fb i accu = Inl e"
    by (cases "i < length src") (simp_all add: accumulate_def load_s8_def shr_s32_def)
  with False show ?thesis by auto
qed

lemma rms_loop_eq:
  assumes "unat bs \<le> length src" "fb < 32" "i \<le> unat bs"
  shows "rms_loop src bs fb i accu
       = Inr (accu + word_of_int (\<Sum>j = i..<unat bs. sq_term (src ! j) (unat fb)))"
  using assms
proof (induction "unat bs - i" arbitrary: i accu)
  case 0
  then have "i = unat bs" by simp
  then show ?case by (simp add: rms_loop.simps)
next
  case (Suc d)
  then have lt: "i < unat bs" by simp
  then have "i < length src" using Suc.prems by simp
  with Suc.prems have acc: "accumulate src fb i accu
      = Inr (accu + word_of_int (sq_term (src ! i) (unat fb)))"
    by (simp add: accumulate_eq)
  have "d = unat bs - (i + 1)" using Suc.hyps(2) by simp
  from Suc.hyps(1) [OF this Suc.prems(1,2)] lt
  have ih: "rms_loop src bs fb (Suc i) a
      = Inr (a + word_of_int (\<Sum>j = Suc i..<unat bs. sq_term (src ! j) (unat fb)))" for a
    by simp
  have split: "(\<Sum>j = i..<unat bs. sq_term (src ! j) (unat fb))
      = sq_term (src ! i) (unat fb) + (\<Sum>j = Suc i..<unat bs. sq_term (src ! j) (unat fb))"
    using lt by (rule sum.atLeast_Suc_lessThan)
  have "rms_loop src bs fb i accu
      = rms_loop src bs fb (Suc i) (accu + word_of_int (sq_term (src ! i) (unat fb)))"
    using lt by (subst rms_loop.simps) (simp add: acc)
  then show ?case
    by (simp only: ih split of_int_add add.assoc)
qed

lemma rms_loop_fault:
  assumes "i < unat bs" "\<not> (unat bs \<le> length src \<and> fb < 32)"
  shows "\<exists>e. rms_loop src bs fb i accu = Inl e"
  using assms
proof (induction "unat bs - i" arbitrary: i accu)
  case 0
  then show ?case by simp
next
  case (Suc d)
  show ?case
  proof (cases "accumulate src fb i accu")
    case (Inl e)
    with Suc.prems show ?thesis by (subst rms_loop.simps) simp
  next
    case (Inr a)
    then have ok: "i < length src" "fb < 32" by (simp_all add: accumulate_Inr_iff)
    with Suc.prems have "Suc i < unat bs" by (cases "Suc i = unat bs") auto
    moreover have "d = unat bs - Suc i" using Suc.hyps(2) by simp
    ultimately have "\<exists>e. rms_loop src bs fb (Suc i) a = Inl e"
      using Suc.hyps(1) Suc.prems(2) by blast
    with Inr Suc.prems show ?thesis by (subst rms_loop.simps) simp
  qed
qed

lemma unrolled_step:
  assumes "i < unat (drop_bit 1 bs)" "2 * i + 1 < length src" "fb < 32"
  shows "rms_loop_unrolled src bs fb i accu
       = rms_loop_unrolled src bs fb (Suc i)
           (accu + word_of_int (sq_term (src ! (2 * i)) (unat fb))
                 + word_of_int (sq_term (src ! (2 * i + 1)) (unat fb)))"
  using assms by (subst rms_loop_unrolled.simps) (simp add: load_s8_def shr_square)

lemma unrolled_step_fault:
  assumes "i < unat (drop_bit 1 bs)" "\<not> (2 * i + 1 < length src \<and> fb < 32)"
  shows "\<exists>e. rms_loop_unrolled src bs fb i accu = Inl e"
proof (cases "2 * i + 1 < length src")
  case True
  with assms have "\<not> fb < 32" by simp
  with True assms(1) show ?thesis
    by (subst rms_loop_unrolled.simps) (simp add: load_s8_def shr_s32_def)
next
  case False
  with assms(1) show ?thesis
    by (subst rms_loop_unrolled.simps) (simp add: load_s8_def)
qed

lemma rms_loop_unrolled_eq:
  assumes "2 * unat (drop_bit 1 bs) \<le> length src" "fb < 32" "i \<le> unat (drop_bit 1 bs)"
  shows "rms_loop_unrolled src bs fb i accu
       = Inr (accu + word_of_int
                (\<Sum>j = 2 * i..<2 * unat (drop_bit 1 bs). sq_term (src ! j) (unat fb)))"
  using assms
proof (induction "unat (drop_bit 1 bs) - i" arbitrary: i accu)
  case 0
  then have "i = unat (drop_bit 1 bs)" by simp
  then show ?case by (simp add: rms_loop_unrolled.simps)
next
  case (Suc d)
  let ?h = "unat (drop_bit 1 bs)"
  let ?f = "\<lambda>j. sq_term (src ! j) (unat fb)"
  from Suc have lt: "i < ?h" by simp
  then have inb: "2 * i + 1 < length src" using Suc.prems(1) by simp
  have "d = ?h - Suc i" using Suc.hyps(2) by simp
  from Suc.hyps(1) [OF this Suc.prems(1,2)] lt
  have ih: "rms_loop_unrolled src bs fb (Suc i) a
      = Inr (a + word_of_int (\<Sum>j = 2 * Suc i..<2 * ?h. ?f j))" for a
    by simp
  have "2 * i < 2 * ?h" "Suc (2 * i) < 2 * ?h" using lt by simp_all
  then have split: "(\<Sum>j = 2 * i..<2 * ?h. ?f j)
      = ?f (2 * i) + (?f (2 * i + 1) + (\<Sum>j = 2 * Suc i..<2 * ?h. ?f j))"
    by (simp add: sum.atLeast_Suc_lessThan)
  show ?case
    unfolding unrolled_step [OF lt inb Suc.prems(2)] ih split
    by (simp only: of_int_add add.assoc)
qed

lemma rms_loop_unrolled_fault:
  assumes "i < unat (drop_bit 1 bs)" "\<not> (2 * unat (drop_bit 1 bs) \<le> length src \<and> fb < 32)"
  shows "\<exists>e. rms_loop_unrolled src bs fb i accu = Inl e"
  using assms
proof (induction "unat (drop_bit 1 bs) - i" arbitrary: i accu)
  case 0
  then show ?case by simp
next
  case (Suc d)
  show ?case
  proof (cases "2 * i + 1 < length src \<and> fb < 32")
    case False
    with Suc.prems(1) show ?thesis by (rule unrolled_step_fault)
  next
    case True
    with Suc.prems have "Suc i < unat (drop_bit 1 bs)"
      by (cases "Suc i = unat (drop_bit 1 bs)") auto
    moreover have "d = unat (drop_bit 1 bs) - Suc i" using Suc.hyps(2) by simp
    ultimately have "\<exists>e. rms_loop_unrolled src bs fb (Suc i) a = Inl e" for a
      using Suc.hyps(1) Suc.prems(2) by blast
    then show ?thesis
      using unrolled_step [OF Suc.prems(1), of src fb accu] True by simp
  qed
qed

lemma unat_half: "unat (drop_bit 1 (bs :: u32)) = unat bs div 2"
  by (simp add: drop_bit_eq_div unat_div)

lemma odd_u32_iff: "(bs :: u32) mod 2 = 1 \<longleftrightarrow> unat bs mod 2 = 1"
proof -
  have "unat (bs mod 2) = unat bs mod 2" by (simp add: unat_mod)
  moreover have "bs mod 2 = 1 \<longleftrightarrow> unat (bs mod 2) = 1"
    by (simp add: word_unat_eq_iff)
  ultimately show ?thesis by simp
qed

lemma sum_nth_take:
  "n \<le> length xs \<Longrightarrow> (\<Sum>j = 0..<n. f (xs ! j)) = (\<Sum>x\<leftarrow>take n xs. f x)"
proof -
  assume n: "n \<le> length xs"
  have "(\<Sum>x\<leftarrow>take n xs. f x) = (\<Sum>j = 0..<length (map f (take n xs)). map f (take n xs) ! j)"
    by (rule sum_list_sum_nth)
  also have "\<dots> = (\<Sum>j = 0..<n. f (xs ! j))"
    using n by (intro sum.cong) simp_all
  finally show ?thesis by simp
qed

lemma sq_sum_nth:
  "n \<le> length xs \<Longrightarrow> sq_sum xs n fb = (\<Sum>j = 0..<n. sq_term (xs ! j) fb)"
  unfolding sq_sum_def by (rule sum_nth_take [symmetric])

lemma rms_accu_plain:
  assumes "unat bs \<le> length src" "fb < 32"
  shows "rms_accu False src bs fb = Inr (word_of_int (sq_sum src (unat bs) (unat fb)))"
proof -
  have "rms_accu False src bs fb
      = Inr (word_of_int (\<Sum>j = 0..<unat bs. sq_term (src ! j) (unat fb)))"
    using rms_loop_eq [OF assms, of 0 0] by (simp add: rms_accu_def)
  then show ?thesis
    by (simp only: sq_sum_nth [OF assms(1)])
qed

lemma rms_accu_unrolled:
  assumes "unat bs \<le> length src" "fb < 32"
  shows "rms_accu True src bs fb = Inr (word_of_int (sq_sum src (unat bs) (unat fb)))"
proof -
  let ?h = "unat (drop_bit 1 bs)"
  let ?f = "\<lambda>j. sq_term (src ! j) (unat fb)"
  have h: "?h = unat bs div 2" by (rule unat_half)
  then have le: "2 * ?h \<le> length src" using assms(1) by simp
  have loop: "rms_loop_unrolled src bs fb 0 0 = Inr (word_of_int (\<Sum>j = 0..<2 * ?h. ?f j))"
    using rms_loop_unrolled_eq [OF le assms(2), of 0 0] by simp
  show ?thesis
  proof (cases "unat bs mod 2 = 1")
    case True
    then have n: "unat bs = Suc (2 * ?h)" using h by presburger
    then have "2 * ?h < length src" using assms(1) by simp
    then have "accumulate src fb (2 * ?h) a = Inr (a + word_of_int (?f (2 * ?h)))" for a
      using assms(2) by (rule accumulate_eq)
    moreover have "(\<Sum>j = 0..<unat bs. ?f j) = (\<Sum>j = 0..<2 * ?h. ?f j) + ?f (2 * ?h)"
      unfolding n by simp
    ultimately show ?thesis
      using True assms(1)
      by (simp add: rms_accu_def loop odd_u32_iff sq_sum_nth)
  next
    case False
    then have n: "unat bs = 2 * ?h" using h by presburger
    have "(\<Sum>j = 0..<unat bs. ?f j) = (\<Sum>j = 0..<2 * ?h. ?f j)"
      using n by simp
    then show ?thesis
      using False assms(1)
      by (simp add: rms_accu_def loop odd_u32_iff sq_sum_nth)
  qed
qed

lemma rms_accu_eq:
  assumes "unat bs \<le> length src" "fb < 32"
  shows "rms_accu unroll src bs fb = Inr (word_of_int (sq_sum src (unat bs) (unat fb)))"
  using assms by (cases unroll) (simp_all add: rms_accu_plain rms_accu_unrolled)

lemma rms_accu_zero: "rms_accu unroll src 0 fb = Inr 0"
  by (simp add: rms_accu_def rms_loop.simps rms_loop_unrolled.simps)

lemma rms_accu_fault:
  assumes "bs \<noteq> 0" "\<not> (unat bs \<le> length src \<and> fb < 32)"
  shows "\<exists>e. rms_accu unroll src bs fb = Inl e"
proof (cases unroll)
  case False
  have "0 < unat bs" using assms(1) by (simp add: unat_gt_0)
  then show ?thesis
    using rms_loop_fault [OF _ assms(2), of 0 0] False by (simp add: rms_accu_def)
next
  case True
  let ?h = "unat (drop_bit 1 bs)"
  have h: "?h = unat bs div 2" by (rule unat_half)
  have pos: "0 < unat bs" using assms(1) by (simp add: unat_gt_0)
  show ?thesis
  proof (cases "0 < ?h \<and> \<not> (2 * ?h \<le> length src \<and> fb < 32)")
    case True
    then obtain e where "rms_loop_unrolled src bs fb 0 0 = Inl e"
      using rms_loop_unrolled_fault [of 0 bs src fb 0] by blast
    then show ?thesis using \<open>unroll\<close> by (simp add: rms_accu_def)
  next
    case False
    then have loop: "\<exists>a. rms_loop_unrolled src bs fb 0 0 = Inr a"
    proof (cases "0 < ?h")
      case True
      with False have "2 * ?h \<le> length src" "fb < 32" by simp_all
      then show ?thesis using rms_loop_unrolled_eq [of bs src fb 0 0] by simp
    next
      case False
      then show ?thesis by (subst rms_loop_unrolled.simps) simp
    qed
    have odd: "unat bs mod 2 = 1"
    proof (rule ccontr)
      assume "unat bs mod 2 \<noteq> 1"
      then have "unat bs = 2 * ?h" using h by presburger
      with pos False assms(2) show False by simp
    qed
    then have n: "unat bs = Suc (2 * ?h)" using h by presburger
    have "fb < 32 \<Longrightarrow> length src < unat bs" using assms(2) by simp
    then have "\<not> (2 * ?h < length src \<and> fb < 32)"
      using n by auto
    then have "\<exists>e. accumulate src fb (2 * ?h) a = Inl e" for a
      using accumulate_Inr_iff [of src fb "2 * ?h" a] by (cases "accumulate src fb (2 * ?h) a") auto
    with loop odd show ?thesis
      using \<open>unroll\<close> by (auto simp: rms_accu_def odd_u32_iff)
  qed
qed

lemma value_of_simps [simp]: "value_of (Inl e) = None" "value_of (Inr v) = Some v"
  by (simp_all add: value_of_def)

lemma rms_accu_unroll_irrelevant:
  "value_of (rms_accu True src bs fb) = value_of (rms_accu False src bs fb)"
proof (cases "unat bs \<le> length src \<and> fb < 32")
  case True
  then show ?thesis by (simp add: rms_accu_eq)
next
  case False
  show ?thesis
  proof (cases "bs = 0")
    case True
    then show ?thesis by (simp add: rms_accu_zero)
  next
    case nz: False
    obtain e1 e2 where "rms_accu True src bs fb = Inl e1" "rms_accu False src bs fb = Inl e2"
      using rms_accu_fault [OF nz False] by blast
    then show ?thesis by simp
  qed
qed

lemma kernel_unroll_irrelevant:
  "value_of (plp_rms_q8s_rv32im True src bs fb) = value_of (plp_rms_q8s_rv32im False src bs fb)"
proof -
  have "value_of (plp_rms_q8s_rv32im u src bs fb)
      = (case value_of (rms_accu u src bs fb) of
           None \<Rightarrow> None
         | Some accu \<Rightarrow> if bs = 0 then None else Some (ucast (accu div bs)))" for u
    by (simp add: plp_rms_q8s_rv32im_def div_s32_u32_def split: sum.splits)
  then show ?thesis by (simp add: rms_accu_unroll_irrelevant)
qed

lemma sq_sum_bounds: "0 \<le> sq_sum xs n fb \<and> sq_sum xs n fb \<le> 16384 * int n"
  unfolding sq_sum_def
proof (induction xs arbitrary: n)
  case Nil
  show ?case by simp
next
  case (Cons x xs)
  show ?case
  proof (cases n)
    case 0
    then show ?thesis by simp
  next
    case (Suc m)
    with Cons [of m] sq_term_bounds [of x fb] show ?thesis by simp
  qed
qed

lemma sq_sum_unscaled: "sq_sum xs n 0 = (\<Sum>x\<leftarrow>take n xs. sint x * sint x)"
  by (simp add: sq_sum_def sq_term_def)

lemma ucast_s32_s8_of_int: "(ucast (word_of_int k :: u32) :: s8) = word_of_int k"
  by (rule ucast_down_wi) (simp add: is_down)

lemma sdiv_nonneg: "0 \<le> k \<Longrightarrow> 0 < l \<Longrightarrow> k sdiv l = k div (l :: int)"
  by (simp add: signed_divide_int_def sgn_if)

lemma u32_div_exact:
  assumes "0 \<le> k" "k < 4294967296"
  shows "(word_of_int k :: u32) div bs = word_of_int (k div int (unat bs))"
proof -
  have "take_bit 32 k = k"
    using assms by (intro take_bit_int_eq_self) simp_all
  then have k: "uint (word_of_int k :: u32) = k"
    by (simp add: uint_word_of_int_eq)
  have "(word_of_int k :: u32) div bs = word_of_int (uint (word_of_int k :: u32) div uint bs)"
    by (rule word_div_def)
  then show ?thesis unfolding k by (simp only: uint_nat)
qed

lemma kernel_eq:
  assumes "bs \<noteq> 0" "unat bs \<le> length src" "fb < 32"
  shows "plp_rms_q8s_rv32im unroll src bs fb
       = Inr (ucast ((word_of_int (sq_sum src (unat bs) (unat fb)) :: s32) div bs))"
  using assms by (simp add: plp_rms_q8s_rv32im_def rms_accu_eq div_s32_u32_def)

lemma kernel_exact:
  assumes "bs \<noteq> 0" "unat bs \<le> length src" "fb < 32"
    and "sq_sum src (unat bs) (unat fb) < 4294967296"
  shows "plp_rms_q8s_rv32im unroll src bs fb
       = Inr (word_of_int (sq_sum src (unat bs) (unat fb) sdiv int (unat bs)))"
proof -
  let ?S = "sq_sum src (unat bs) (unat fb)"
  have nonneg: "0 \<le> ?S" using sq_sum_bounds [of src "unat bs" "unat fb"] by simp
  have "0 < unat bs" using assms(1) by (simp add: unat_gt_0)
  then have pos: "0 < int (unat bs)" by linarith
  have "(word_of_int ?S :: u32) div bs = word_of_int (?S div int (unat bs))"
    using nonneg assms(4) by (rule u32_div_exact)
  then show ?thesis
    by (simp only: kernel_eq [OF assms(1-3)] ucast_s32_s8_of_int sdiv_nonneg [OF nonneg pos])
qed

lemma kernel_zero_block: "plp_rms_q8s_rv32im unroll src 0 fb = Inl DivisionByZero"
  by (simp add: plp_rms_q8s_rv32im_def rms_accu_zero div_s32_u32_def)

lemma ones8: "sq_sum [1, 1, 1, 1, 1, 1, 1, 1] 8 0 = 8"
  by (simp add: sq_sum_def sq_term_def)

section \<open>Claims about the single-core kernel\<close>

text \<open>
  Claim C1, as the code has it. For a block of at least one sample that the vector holds
  and a shift below 32, the kernel, unrolled or not, stores the low eight bits of
  \<open>accu / blockSize\<close>, where \<open>accu\<close> is the sum of the terms \<open>sample^2 >> fracBits\<close>
  held in the 32-bit accumulator and the division is the unsigned 32-bit one. Whenever the
  sum is below \<open>2^32\<close>, as it is for every block of at most 262143 samples, this is the
  quotient of the exact sum, truncated toward zero. With \<open>fracBits = 0\<close> the sum is the
  plain sum of squares, and the eight-sample vector of ones gives 1.
\<close>

theorem rms_kernel_mean_of_squares:
  assumes "1 \<le> unat bs" "unat bs \<le> length src" "fb < 32"
  shows "plp_rms_q8s_rv32im unroll src bs fb
           = Inr (ucast ((word_of_int (sq_sum src (unat bs) (unat fb)) :: s32) div bs))
       \<and> (sq_sum src (unat bs) (unat fb) < 4294967296 \<longrightarrow>
            plp_rms_q8s_rv32im unroll src bs fb
              = Inr (word_of_int (sq_sum src (unat bs) (unat fb) sdiv int (unat bs))))
       \<and> (unat bs \<le> 262143 \<longrightarrow> sq_sum src (unat bs) (unat fb) < 4294967296)
       \<and> sq_sum src (unat bs) 0 = (\<Sum>x\<leftarrow>take (unat bs) src. sint x * sint x)
       \<and> plp_rms_q8s_rv32im unroll [1, 1, 1, 1, 1, 1, 1, 1] 8 0 = Inr 1"
proof -
  have nz: "bs \<noteq> 0" using assms(1) by auto
  have a: "plp_rms_q8s_rv32im unroll src bs fb
      = Inr (ucast ((word_of_int (sq_sum src (unat bs) (unat fb)) :: s32) div bs))"
    using nz assms(2,3) by (rule kernel_eq)
  have b: "sq_sum src (unat bs) (unat fb) < 4294967296 \<longrightarrow>
      plp_rms_q8s_rv32im unroll src bs fb
        = Inr (word_of_int (sq_sum src (unat bs) (unat fb) sdiv int (unat bs)))"
    by (intro impI) (rule kernel_exact [OF nz assms(2,3)])
  have c: "unat bs \<le> 262143 \<longrightarrow> sq_sum src (unat bs) (unat fb) < 4294967296"
  proof
    assume "unat bs \<le> 262143"
    then have "int (unat bs) \<le> 262143" by linarith
    with sq_sum_bounds [of src "unat bs" "unat fb"]
    show "sq_sum src (unat bs) (unat fb) < 4294967296" by linarith
  qed
  have d: "sq_sum src (unat bs) 0 = (\<Sum>x\<leftarrow>take (unat bs) src. sint x * sint x)"
    by (rule sq_sum_unscaled)
  have "plp_rms_q8s_rv32im unroll [1, 1, 1, 1, 1, 1, 1, 1] 8 0
      = Inr (word_of_int (sq_sum [1, 1, 1, 1, 1, 1, 1, 1] (unat (8 :: u32)) (unat (0 :: u32))
               sdiv int (unat (8 :: u32))))"
    by (rule kernel_exact) (simp_all add: ones8)
  then have e: "plp_rms_q8s_rv32im unroll [1, 1, 1, 1, 1, 1, 1, 1] 8 0 = Inr 1"
    by (simp add: ones8)
  show ?thesis by (intro conjI a b c d e)
qed

text \<open>
  Witness for C1: the three-sample block \<open>[-128, -128, 3]\<close> with \<open>fracBits = 2\<close> under
  the unrolled loop. The sum is \<open>4096 + 4096 + 2 = 8194\<close>, the quotient 2731, and its low
  eight bits are 171.
\<close>

theorem rms_kernel_mean_of_squares_witness:
  "1 \<le> unat (3 :: u32) \<and> unat (3 :: u32) \<le> length [- 128, - 128, 3 :: s8] \<and> (2 :: u32) < 32
     \<and> sq_sum [- 128, - 128, 3] 3 2 = 8194
     \<and> plp_rms_q8s_rv32im True [- 128, - 128, 3] 3 2 = Inr 171"
  using rms_kernel_mean_of_squares [of 3 "[- 128, - 128, 3]" 2 True]
  by (simp add: sq_sum_def sq_term_def)

text \<open>
  Counterexample to C1 as stated, which speaks of every non-negative \<open>fracBits\<close>: on the
  eight-sample vector of ones with \<open>fracBits = 32\<close> the shift \<open>(temp1 * temp1) >> 32\<close> of a
  32-bit operand has no defined value, so the kernel does not store the quotient
  \<open>0 / 8\<close> that the formula of the claim gives.
\<close>

theorem rms_kernel_wide_shift_counterexample:
  "plp_rms_q8s_rv32im False [1, 1, 1, 1, 1, 1, 1, 1] 8 32 = Inl ShiftOutOfRange
     \<and> plp_rms_q8s_rv32im False [1, 1, 1, 1, 1, 1, 1, 1] 8 32
         \<noteq> Inr (word_of_int (sq_sum [1, 1, 1, 1, 1, 1, 1, 1] 8 32 sdiv 8))"
  by (simp add: plp_rms_q8s_rv32im_def rms_accu_def rms_loop.simps accumulate_def load_s8_def
      shr_s32_def)

text \<open>
  Claim C8: for every vector, block size and \<open>fracBits\<close> the unrolled loops (two samples a
  round, and one trailing sample when the block size is odd) and the plain loop leave the
  same accumulator, and the kernel stores the same result; one of them has a value exactly
  when the other has.
\<close>

theorem rms_unrolled_same_result:
  "value_of (rms_accu True src bs fb) = value_of (rms_accu False src bs fb)
     \<and> value_of (plp_rms_q8s_rv32im True src bs fb)
         = value_of (plp_rms_q8s_rv32im False src bs fb)"
  by (simp only: rms_accu_unroll_irrelevant kernel_unroll_irrelevant)


lemma uint_ucast_s8: "uint (ucast (q :: u32) :: s8) = uint q mod 256"
  by (simp add: unsigned_ucast_eq take_bit_eq_mod)

lemma sint_ucast_s8: "sint (ucast (q :: u32) :: s8) = (uint q + 128) mod 256 - 128"
  by (subst ucast_eq, subst int_word_sint) simp

lemma sevens: "rms_accu unroll [127, 127, 127, 127] 4 0 = Inr 64516"
  by (simp add: rms_accu_eq sq_sum_def sq_term_def)

text \<open>
  Claim C10: whenever the loops leave an accumulator and the block is not empty, the kernel
  stores the 32-bit quotient \<open>accu / blockSize\<close> reduced modulo \<open>2^8\<close> and read as a
  signed 8-bit number; nothing saturates. Four samples of 127 with \<open>fracBits = 0\<close> give the
  accumulator 64516 and the quotient 16129, and the kernel stores 1.
\<close>

theorem rms_kernel_narrowing_wraps:
  assumes "rms_accu unroll src bs fb = Inr accu" "bs \<noteq> 0"
  shows "(\<exists>r. plp_rms_q8s_rv32im unroll src bs fb = Inr r
            \<and> uint r = uint (accu div bs) mod 256
            \<and> sint r = (uint (accu div bs) + 128) mod 256 - 128)
       \<and> rms_accu unroll [127, 127, 127, 127] 4 0 = Inr 64516
       \<and> (64516 :: u32) div 4 = 16129
       \<and> plp_rms_q8s_rv32im unroll [127, 127, 127, 127] 4 0 = Inr 1"
proof -
  have "plp_rms_q8s_rv32im unroll src bs fb = Inr (ucast (accu div bs))"
    using assms by (simp add: plp_rms_q8s_rv32im_def div_s32_u32_def)
  then have a: "\<exists>r. plp_rms_q8s_rv32im unroll src bs fb = Inr r
      \<and> uint r = uint (accu div bs) mod 256
      \<and> sint r = (uint (accu div bs) + 128) mod 256 - 128"
    by (simp add: uint_ucast_s8 sint_ucast_s8)
  have q: "(64516 :: u32) div 4 = 16129" by simp
  have "plp_rms_q8s_rv32im unroll [127, 127, 127, 127] 4 0 = Inr (ucast ((64516 :: u32) div 4))"
    by (simp add: plp_rms_q8s_rv32im_def sevens div_s32_u32_def)
  then have c: "plp_rms_q8s_rv32im unroll [127, 127, 127, 127] 4 0 = Inr 1"
    unfolding q by simp
  show ?thesis by (intro conjI a sevens q c)
qed

text \<open>
  Witness for C10: three samples of 127 under the unrolled loop. The accumulator is 48387,
  the quotient 16129 is outside the signed 8-bit range, and the stored byte is
  \<open>16129 mod 256 = 1\<close>, not the saturated 127.
\<close>

theorem rms_kernel_narrowing_wraps_witness:
  "rms_accu True [127, 127, 127] 3 0 = Inr 48387 \<and> (3 :: u32) \<noteq> 0
     \<and> (\<exists>r. plp_rms_q8s_rv32im True [127, 127, 127] 3 0 = Inr r
            \<and> uint r = 16129 mod 256 \<and> sint r = 1)"
proof -
  have h: "rms_accu True [127, 127, 127] 3 0 = Inr 48387"
    by (simp add: rms_accu_eq sq_sum_def sq_term_def)
  have q: "(48387 :: u32) div 3 = 16129" by simp
  show ?thesis
    using h rms_kernel_narrowing_wraps [OF h, of ] by (simp add: q)
qed

section \<open>The slice of a core\<close>

lemma ceil_div_is_ceiling: "int (ceil_div a b) = \<lceil>real a / real b\<rceil>"
proof -
  have "\<lceil>real a / real b\<rceil> = \<lceil>real_of_int (int a) / real_of_int (int b)\<rceil>" by simp
  also have "\<dots> = - (- int a div int b)" by (rule ceiling_divide_eq_div)
  finally have c: "\<lceil>real a / real b\<rceil> = - (- int a div int b)" .
  have "0 \<le> \<lceil>real a / real b\<rceil>" using ceiling_mono [of 0 "real a / real b"] by simp
  then show ?thesis unfolding ceil_div_def c by simp
qed

lemma ceil_div_nat:
  assumes "0 < b"
  shows "(a + b - 1) div b = a div b + (if a mod b = 0 then 0 else 1 :: nat)"
proof (cases "a mod b = 0")
  case True
  have eq: "b * (a div b) + a mod b = a" by (rule mult_div_mod_eq)
  have "(a + b - 1) div b = a div b"
  proof (rule div_nat_eqI)
    show "b * (a div b) \<le> a + b - 1" using eq True assms by linarith
    have "b * Suc (a div b) = b * (a div b) + b" by simp
    then show "a + b - 1 < b * Suc (a div b)" using eq True assms by linarith
  qed
  with True show ?thesis by simp
next
  case False
  have eq: "b * (a div b) + a mod b = a" by (rule mult_div_mod_eq)
  have lt: "a mod b < b" using assms by simp
  have "(a + b - 1) div b = Suc (a div b)"
  proof (rule div_nat_eqI)
    have s1: "b * Suc (a div b) = b * (a div b) + b" by simp
    then show "b * Suc (a div b) \<le> a + b - 1" using eq False by linarith
    have "b * Suc (Suc (a div b)) = b * (a div b) + b + b" by simp
    then show "a + b - 1 < b * Suc (Suc (a div b))" using eq lt by linarith
  qed
  with False show ?thesis by simp
qed

lemma ceil_div_eq:
  assumes "0 < b"
  shows "ceil_div a b = (a + b - 1) div b"
proof -
  have "- int a div int b
      = (if int a mod int b = 0 then - (int a div int b) else - (int a div int b) - 1)"
    using assms by (intro zdiv_zminus1_eq_if) simp
  then have "- (- int a div int b) = int (a div b + (if a mod b = 0 then 0 else 1))"
    by (simp flip: of_nat_div of_nat_mod)
  then show ?thesis unfolding ceil_div_def ceil_div_nat [OF assms] by simp
qed

lemma unat_u8_less: "unat (n :: u8) < 256"
  using unsigned_less [of n, where 'a = nat] by simp

lemma unat_ucast_u8: "unat (ucast (n :: u8) :: u32) = unat n"
proof -
  have "unat (ucast n :: u32) = take_bit 32 (unat n)"
    by (simp add: unsigned_ucast_eq)
  moreover have "unat n < 2 ^ 32" using unat_u8_less [of n] by simp
  ultimately show ?thesis by (simp only: take_bit_nat_eq_self)
qed

lemma unat_sum_minus_one:
  assumes "1 \<le> unat n" "unat bs + unat n \<le> 4294967296"
  shows "unat ((bs :: u32) + ucast (n :: u8) - 1) = unat bs + unat n - 1"
proof -
  have "bs + ucast n - 1 = word_of_nat (unat bs) + word_of_nat (unat (ucast n :: u32)) - 1"
    by simp
  also have "\<dots> = word_of_nat (unat bs + unat n) - word_of_nat 1"
    by (simp only: unat_ucast_u8 of_nat_add of_nat_1)
  also have "\<dots> = word_of_nat (unat bs + unat n - 1)"
    using assms(1) by (subst of_nat_diff) simp_all
  finally have w: "word_of_nat (unat bs + unat n - 1) = bs + ucast n - 1" by (rule sym)
  have "unat bs + unat n - 1 < 2 ^ LENGTH(32)" using assms by simp
  with w show ?thesis by (rule of_nat_inverse)
qed

lemma unat_blockSizeP:
  assumes "1 \<le> unat n" "unat bs + unat n \<le> 4294967296"
  shows "unat (((bs :: u32) + ucast (n :: u8) - 1) div ucast n) = ceil_div (unat bs) (unat n)"
  using assms by (simp only: unat_div unat_sum_minus_one unat_ucast_u8 ceil_div_eq)

lemma ceil_div_pos: "1 \<le> a \<Longrightarrow> 1 \<le> b \<Longrightarrow> 1 \<le> ceil_div a b"
proof -
  assume a: "1 \<le> a" and b: "1 \<le> b"
  then have "b \<le> a + b - 1" by simp
  then have "b div b \<le> (a + b - 1) div b" by (rule div_le_mono)
  then show ?thesis using b by (simp add: ceil_div_eq)
qed

lemma ceil_div_mult_le: "1 \<le> b \<Longrightarrow> ceil_div a b * b \<le> a + b - 1"
  by (simp add: ceil_div_eq)

lemma ceil_div_exact: "1 \<le> b \<Longrightarrow> a mod b = 0 \<Longrightarrow> ceil_div a b = a div b"
  using ceil_div_nat [of b a] by (simp add: ceil_div_eq)

lemma worker_slice_words:
  assumes "1 \<le> unat (blockSize S)" "1 \<le> unat (nPE S)"
    and "unat (blockSize S) + unat (nPE S) \<le> 4294967296"
  defines "Pw \<equiv> (blockSize S + ucast (nPE S) - 1) div ucast (nPE S)"
  shows "unat Pw = ceil_div (unat (blockSize S)) (unat (nPE S))"
    and "worker_slice S c
       = Inr (of_nat c * Pw,
              if c = unat (nPE S) - 1 \<and> unat (blockSize S) mod unat (nPE S) \<noteq> 0
              then blockSize S mod Pw else Pw)"
proof -
  show P: "unat Pw = ceil_div (unat (blockSize S)) (unat (nPE S))"
    unfolding Pw_def using assms(2,3) by (rule unat_blockSizeP)
  have "1 \<le> unat Pw" unfolding P using assms(1,2) by (rule ceil_div_pos)
  have Pnz: "Pw \<noteq> 0"
  proof
    assume "Pw = 0"
    then have "unat Pw = 0" by simp
    with \<open>1 \<le> unat Pw\<close> show False by simp
  qed
  have nnz: "nPE S \<noteq> 0" using assms(2) by auto
  have u: "uint (nPE S) = int (unat (nPE S))" by (rule uint_nat)
  have last: "int c = uint (nPE S) - 1 \<longleftrightarrow> c = unat (nPE S) - 1"
    unfolding u using assms(2) by linarith
  have "unat (blockSize S mod ucast (nPE S)) = unat (blockSize S) mod unat (nPE S)"
    by (simp only: unat_mod unat_ucast_u8)
  then have rest: "blockSize S mod ucast (nPE S) \<noteq> 0 \<longleftrightarrow> unat (blockSize S) mod unat (nPE S) \<noteq> 0"
    by (simp only: flip: unat_0_iff)
  show "worker_slice S c
       = Inr (of_nat c * Pw,
              if c = unat (nPE S) - 1 \<and> unat (blockSize S) mod unat (nPE S) \<noteq> 0
              then blockSize S mod Pw else Pw)"
  proof (cases "c = unat (nPE S) - 1")
    case False
    with last have "int c \<noteq> uint (nPE S) - 1" by blast
    then show ?thesis
      unfolding worker_slice_def Let_def Pw_def [symmetric] using nnz False by simp
  next
    case True
    with last have l: "int c = uint (nPE S) - 1" by blast
    show ?thesis
    proof (cases "unat (blockSize S) mod unat (nPE S) \<noteq> 0")
      case True
      then have "blockSize S mod ucast (nPE S) \<noteq> 0" by (rule rest [THEN iffD2])
      then show ?thesis
        unfolding worker_slice_def Let_def Pw_def [symmetric]
        using nnz Pnz l True \<open>c = unat (nPE S) - 1\<close> by simp
    next
      case False
      then have "\<not> blockSize S mod ucast (nPE S) \<noteq> 0" using rest by simp
      then show ?thesis
        unfolding worker_slice_def Let_def Pw_def [symmetric]
        using nnz l False by simp
    qed
  qed
qed

lemma slice_7_2:
  "worker_slice \<lparr>pSrc = src, blockSize = 7, fracBits = fb, nPE = 2\<rparr> 0 = Inr (0, 4)"
  "worker_slice \<lparr>pSrc = src, blockSize = 7, fracBits = fb, nPE = 2\<rparr> 1 = Inr (4, 3)"
  by (simp_all add: worker_slice_def)

lemma worker_slice_partition_aux:
  assumes "1 \<le> unat (blockSize S)" "1 \<le> unat (nPE S)"
    and "unat (blockSize S) + unat (nPE S) \<le> 4294967296"
  shows "(\<exists>off len. worker_slice S c = Inr (off, len)
            \<and> (c < unat (nPE S) \<longrightarrow>
                  unat off = c * ceil_div (unat (blockSize S)) (unat (nPE S)))
            \<and> unat len =
                 (if c = unat (nPE S) - 1 \<and> unat (blockSize S) mod unat (nPE S) \<noteq> 0
                  then unat (blockSize S) mod ceil_div (unat (blockSize S)) (unat (nPE S))
                  else ceil_div (unat (blockSize S)) (unat (nPE S)))
            \<and> (unat (blockSize S) mod unat (nPE S) = 0 \<longrightarrow>
                  unat len = unat (blockSize S) div unat (nPE S)))
       \<and> worker_slice \<lparr>pSrc = src, blockSize = 7, fracBits = fb, nPE = 2\<rparr> 0 = Inr (0, 4)
       \<and> worker_slice \<lparr>pSrc = src, blockSize = 7, fracBits = fb, nPE = 2\<rparr> 1 = Inr (4, 3)"
proof -
  let ?bs = "unat (blockSize S)" and ?n = "unat (nPE S)"
  let ?P = "ceil_div ?bs ?n"
  define Pw where "Pw = (blockSize S + ucast (nPE S) - 1) div ucast (nPE S)"
  define len where "len = (if c = ?n - 1 \<and> ?bs mod ?n \<noteq> 0 then blockSize S mod Pw else Pw)"
  have P: "unat Pw = ?P"
    unfolding Pw_def using assms by (rule worker_slice_words(1))
  have sl: "worker_slice S c = Inr (of_nat c * Pw, len)"
    unfolding Pw_def len_def using assms by (rule worker_slice_words(2))
  have off: "unat (of_nat c * Pw :: u32) = c * ?P" if "c < ?n"
  proof -
    have "c * ?P \<le> ?n * ?P" using that by (intro mult_le_mono1) simp
    also have "\<dots> = ?P * ?n" by (rule mult.commute)
    also have "\<dots> \<le> ?bs + ?n - 1" using assms(2) by (rule ceil_div_mult_le)
    finally have "c * ?P < 2 ^ LENGTH(32)" using assms(3) by simp
    moreover have "word_of_nat (c * ?P) = (of_nat c * Pw :: u32)"
      by (simp add: P [symmetric])
    ultimately show ?thesis by (intro of_nat_inverse)
  qed
  have len1: "unat len = (if c = ?n - 1 \<and> ?bs mod ?n \<noteq> 0 then ?bs mod ?P else ?P)"
    unfolding len_def by (simp add: unat_mod P)
  have len2: "unat len = ?bs div ?n" if "?bs mod ?n = 0"
    using that assms(2) by (simp add: len1 ceil_div_exact)
  have "\<exists>off len. worker_slice S c = Inr (off, len)
            \<and> (c < ?n \<longrightarrow> unat off = c * ?P)
            \<and> unat len = (if c = ?n - 1 \<and> ?bs mod ?n \<noteq> 0 then ?bs mod ?P else ?P)
            \<and> (?bs mod ?n = 0 \<longrightarrow> unat len = ?bs div ?n)"
  proof (intro exI conjI impI)
    show "worker_slice S c = Inr (of_nat c * Pw, len)" by (rule sl)
    show "unat (of_nat c * Pw :: u32) = c * ?P" if "c < ?n" using that by (rule off)
    show "unat len = (if c = ?n - 1 \<and> ?bs mod ?n \<noteq> 0 then ?bs mod ?P else ?P)"
      by (rule len1)
    show "unat len = ?bs div ?n" if "?bs mod ?n = 0" using that by (rule len2)
  qed
  then show ?thesis by (intro conjI slice_7_2)
qed

text \<open>
  Claim C3. The task descriptor describes memory: its source vector holds \<open>blockSize\<close>
  samples, and the vector and the \<open>nPE\<close> result slots are separate objects of one 32-bit
  address space. For every such descriptor with \<open>blockSize \<ge> 1\<close> and \<open>nPE \<ge> 1\<close> the worker
  gives the core \<open>c\<close> the slice at offset \<open>c * blockSizeP\<close>, with
  \<open>blockSizeP = ceil (blockSize / nPE)\<close>; its length is \<open>blockSizeP\<close>, but for the last
  core when \<open>blockSize mod nPE \<noteq> 0\<close>, which gets \<open>blockSize mod blockSizeP\<close>. So all slices
  have the length \<open>blockSize / nPE\<close> when \<open>nPE\<close> divides \<open>blockSize\<close>, and for seven samples
  on two cores the core 0 owns four samples and the core 1 owns three.
\<close>

theorem worker_slice_partition:
  assumes "1 \<le> unat (blockSize S)" "1 \<le> unat (nPE S)"
    and "unat (blockSize S) \<le> length (pSrc S)"
    and "length (pSrc S) + unat (nPE S) \<le> 4294967296"
  shows "(\<exists>off len. worker_slice S c = Inr (off, len)
            \<and> (c < unat (nPE S) \<longrightarrow>
                  unat off = c * ceil_div (unat (blockSize S)) (unat (nPE S)))
            \<and> unat len =
                 (if c = unat (nPE S) - 1 \<and> unat (blockSize S) mod unat (nPE S) \<noteq> 0
                  then unat (blockSize S) mod ceil_div (unat (blockSize S)) (unat (nPE S))
                  else ceil_div (unat (blockSize S)) (unat (nPE S)))
            \<and> (unat (blockSize S) mod unat (nPE S) = 0 \<longrightarrow>
                  unat len = unat (blockSize S) div unat (nPE S)))
       \<and> worker_slice \<lparr>pSrc = src, blockSize = 7, fracBits = fb, nPE = 2\<rparr> 0 = Inr (0, 4)
       \<and> worker_slice \<lparr>pSrc = src, blockSize = 7, fracBits = fb, nPE = 2\<rparr> 1 = Inr (4, 3)"
proof -
  have "unat (blockSize S) + unat (nPE S) \<le> 4294967296"
    using assms(3,4) by linarith
  with assms(1,2) show ?thesis by (rule worker_slice_partition_aux)
qed

text \<open>
  Witness for C3: seven samples on two cores, at the last core. The slice starts at
  offset 4 and has \<open>7 mod 4 = 3\<close> samples.
\<close>

theorem worker_slice_partition_witness:
  "1 \<le> unat (7 :: u32) \<and> 1 \<le> unat (2 :: u8)
     \<and> unat (7 :: u32) \<le> length [1, 2, 3, 4, 5, 6, 7 :: s8]
     \<and> length [1, 2, 3, 4, 5, 6, 7 :: s8] + unat (2 :: u8) \<le> 4294967296
     \<and> (\<exists>off len. worker_slice
                      \<lparr>pSrc = [1, 2, 3, 4, 5, 6, 7], blockSize = 7, fracBits = 0, nPE = 2\<rparr> 1
                      = Inr (off, len)
            \<and> unat off = 4 \<and> unat len = 3)"
  using worker_slice_partition
    [of "\<lparr>pSrc = [1, 2, 3, 4, 5, 6, 7], blockSize = 7, fracBits = 0, nPE = 2\<rparr>" 1]
  by (simp add: ceil_div_def)

text \<open>
  Without the bound of the address space the sum \<open>blockSize + nPE - 1\<close> can wrap around:
  a descriptor that claims \<open>2^32 - 1\<close> samples for two cores gets \<open>blockSizeP = 0\<close>.
\<close>

lemma worker_slice_wraps:
  "worker_slice \<lparr>pSrc = [], blockSize = 4294967295, fracBits = 0, nPE = 2\<rparr> 0 = Inr (0, 0)"
  by (simp add: worker_slice_def)

section \<open>The dispatcher\<close>

lemma worker_slice_one:
  "worker_slice \<lparr>pSrc = src, blockSize = len, fracBits = shift, nPE = 1\<rparr> 0 = Inr (0, len)"
  by (simp add: worker_slice_def)

lemma worker_partial_one:
  "worker_partial k \<lparr>pSrc = src, blockSize = len, fracBits = shift, nPE = 1\<rparr> 0 = k src len shift"
  by (simp add: worker_partial_def worker_slice_one)

lemma fork_fills:
  assumes "length rs = n" "\<forall>c<n. worker_partial k S c = Inr (rs ! c)"
    and "length cells = n" "i \<le> n" "take i cells = take i rs"
  shows "rt_team_fork (plp_rms_q8p_xpulpv2 k S) [i..<n] (Some cells) = Inr (Some rs)"
  using assms(3-5)
proof (induction "n - i" arbitrary: i cells)
  case 0
  then have "i = n" by simp
  with 0 assms(1) show ?case by simp
next
  case (Suc d)
  then have lt: "i < n" by simp
  have part: "worker_partial k S i = Inr (rs ! i)" using assms(2) lt by simp
  let ?cells = "cells[i := rs ! i]"
  have step: "plp_rms_q8p_xpulpv2 k S i (Some cells) = Inr (Some ?cells)"
    using lt Suc.prems(1) by (simp add: plp_rms_q8p_xpulpv2_def part store_s8_def)
  have "take (Suc i) ?cells = take i ?cells @ [?cells ! i]"
    using lt Suc.prems(1) by (simp add: take_Suc_conv_app_nth)
  also have "\<dots> = take i rs @ [rs ! i]"
    using lt Suc.prems(1,3) by simp
  also have "\<dots> = take (Suc i) rs"
    using lt assms(1) by (simp add: take_Suc_conv_app_nth)
  finally have tk: "take (Suc i) ?cells = take (Suc i) rs" .
  have "d = n - Suc i" using Suc.hyps(2) by simp
  then have "rt_team_fork (plp_rms_q8p_xpulpv2 k S) [Suc i..<n] (Some ?cells) = Inr (Some rs)"
    using Suc.prems(1) lt tk by (intro Suc.hyps(1)) simp_all
  then show ?case
    using lt by (simp add: upt_conv_Cons step)
qed

lemma partials_nth:
  assumes "map (worker_partial k S) [0..<n] = map Inr rs"
  shows "length rs = n" and "\<forall>c<n. worker_partial k S c = Inr (rs ! c)"
proof -
  have "length (map (worker_partial k S) [0..<n]) = length (map Inr rs)"
    using assms by simp
  then show len: "length rs = n" by simp
  show "\<forall>c<n. worker_partial k S c = Inr (rs ! c)"
  proof (intro allI impI)
    fix c assume c: "c < n"
    have "map (worker_partial k S) [0..<n] ! c = map Inr rs ! c" using assms by simp
    then show "worker_partial k S c = Inr (rs ! c)" using c len by simp
  qed
qed

lemma collect_loop_eq:
  assumes "unat n \<le> length cells" "i \<le> unat n"
  shows "collect_loop cells n i accu
       = Inr (accu + word_of_int (\<Sum>j = i..<unat n. sint (cells ! j)))"
  using assms(2)
proof (induction "unat n - i" arbitrary: i accu)
  case 0
  then have "i = unat n" by simp
  then show ?case by (simp add: collect_loop.simps)
next
  case (Suc d)
  then have lt: "i < unat n" by simp
  have "d = unat n - Suc i" using Suc.hyps(2) by simp
  then have ih: "collect_loop cells n (Suc i) a
      = Inr (a + word_of_int (\<Sum>j = Suc i..<unat n. sint (cells ! j)))" for a
    using lt by (intro Suc.hyps(1)) simp_all
  have split: "(\<Sum>j = i..<unat n. sint (cells ! j))
      = sint (cells ! i) + (\<Sum>j = Suc i..<unat n. sint (cells ! j))"
    using lt by (rule sum.atLeast_Suc_lessThan)
  have "collect_loop cells n i accu = collect_loop cells n (Suc i) (accu + scast (cells ! i))"
    using lt assms(1) by (subst collect_loop.simps) (simp add: load_s8_def)
  then show ?case
    by (simp only: ih split of_int_add add.assoc scast_eq)
qed

lemma sum_sint_bounds:
  "- 128 * int (length rs) \<le> (\<Sum>r\<leftarrow>rs. sint (r :: s8))
     \<and> (\<Sum>r\<leftarrow>rs. sint r) \<le> 127 * int (length rs)"
proof (induction rs)
  case Nil
  show ?case by simp
next
  case (Cons r rs)
  with sint_s8_bounds [of r] show ?case by simp
qed

lemma sdiv_avg_bounds:
  assumes "0 < n" "- 128 * n \<le> k" "k \<le> 127 * n"
  shows "- 128 \<le> k sdiv n \<and> k sdiv (n :: int) \<le> 127"
proof (cases "0 \<le> k")
  case True
  then have eq: "k sdiv n = k div n" using assms(1) by (rule sdiv_nonneg)
  have "k div n \<le> (127 * n) div n" using assms(3,1) by (rule zdiv_mono1)
  moreover have "0 \<le> k div n" using True assms(1) by (simp add: pos_imp_zdiv_nonneg_iff)
  ultimately show ?thesis using assms(1) by (simp add: eq)
next
  case False
  then have eq: "k sdiv n = - (- k div n)"
    using assms(1) by (simp add: signed_divide_int_def sgn_if)
  have "- k div n \<le> (128 * n) div n" using assms(2,1) by (intro zdiv_mono1) simp_all
  moreover have "0 \<le> - k div n" using False assms(1) by (simp add: pos_imp_zdiv_nonneg_iff)
  ultimately show ?thesis using assms(1) by (simp add: eq)
qed

lemma sint_s8_of_int: "- 128 \<le> k \<Longrightarrow> k \<le> 127 \<Longrightarrow> sint (word_of_int k :: s8) = k"
  by (simp add: sint_sbintrunc' signed_take_bit_int_eq_self)

lemma sint_ucast_u8: "sint (ucast (n :: u8) :: s32) = int (unat n)"
proof -
  have e: "(ucast n :: s32) = word_of_int (uint n)" by (rule ucast_eq)
  have u: "uint n = int (unat n)" by (rule uint_nat)
  have "int (unat n) < 256" using unat_u8_less [of n] by linarith
  then have "- 2147483648 \<le> int (unat n)" "int (unat n) < 2147483648" by linarith+
  then show ?thesis unfolding e u by (rule sint_s32_of_int)
qed

lemma sum_list_sint_nth:
  "(\<Sum>j = 0..<length rs. sint ((rs :: s8 list) ! j)) = (\<Sum>r\<leftarrow>rs. sint r)"
  using sum_nth_take [of "length rs" rs sint] by simp

lemma collect_eq:
  assumes "1 < unat n" "length rs = unat n"
  shows "collect (Some rs) n = Inr (word_of_int ((\<Sum>r\<leftarrow>rs. sint r) sdiv int (unat n)))"
proof -
  let ?s = "\<Sum>r\<leftarrow>rs. sint r"
  have n1: "1 < n" using assms(1) by (simp add: word_less_nat_alt)
  have l1: "collect_loop rs n 0 0 = Inr (0 + word_of_int (\<Sum>j = 0..<unat n. sint (rs ! j)))"
    using assms(2) by (intro collect_loop_eq) simp_all
  have l2: "(\<Sum>j = 0..<unat n. sint (rs ! j)) = ?s"
    unfolding assms(2) [symmetric] by (rule sum_list_sint_nth)
  have loop: "collect_loop rs n 0 0 = Inr (word_of_int ?s)"
    using l1 by (simp only: l2 add_0)
  have "int (length rs) < 256" using unat_u8_less [of n] assms(2) by linarith
  with sum_sint_bounds [of rs]
  have "- 2147483648 \<le> ?s" "?s < 2147483648" by linarith+
  then have s: "sint (word_of_int ?s :: s32) = ?s" by (rule sint_s32_of_int)
  have "unat (ucast n :: s32) = unat n" by (rule unat_ucast_u8)
  then have nz: "(ucast n :: s32) \<noteq> 0" using assms(1) by (auto simp flip: unat_0_iff)
  have "div_s32 (word_of_int ?s) (ucast n) = Inr (word_of_int (?s sdiv int (unat n)))"
    using nz by (simp only: div_s32_def s sint_ucast_u8 if_False)
  then show ?thesis
    by (simp add: collect_def n1 loop ucast_s32_s8_of_int)
qed

lemma avg_fits:
  assumes "1 < unat (n :: u8)" "length rs = unat n"
  shows "sint (word_of_int ((\<Sum>r\<leftarrow>rs. sint r) sdiv int (unat n)) :: s8)
       = (\<Sum>r\<leftarrow>rs. sint (r :: s8)) sdiv int (unat n)"
proof -
  have "0 < int (unat n)" using assms(1) by linarith
  moreover have "- 128 * int (unat n) \<le> (\<Sum>r\<leftarrow>rs. sint r)"
    and "(\<Sum>r\<leftarrow>rs. sint r) \<le> 127 * int (unat n)"
    using sum_sint_bounds [of rs] unfolding assms(2) by blast+
  ultimately have "- 128 \<le> (\<Sum>r\<leftarrow>rs. sint r) sdiv int (unat n)
      \<and> (\<Sum>r\<leftarrow>rs. sint r) sdiv int (unat n) \<le> 127"
    by (rule sdiv_avg_bounds)
  then show ?thesis by (intro sint_s8_of_int) simp_all
qed

lemma parallel_many:
  assumes "rt_cluster_id rt \<noteq> ARCHI_FC_CID rt" "1 < unat cores" "alloc_succeeds rt"
    and "map (worker_partial k \<lparr>pSrc = src, blockSize = len, fracBits = shift, nPE = cores\<rparr>)
           [0..<unat cores] = map Inr rs"
  shows "plp_rms_q8_parallel k rt src len shift cores res
       = Inr \<lparr>out = word_of_int ((\<Sum>r\<leftarrow>rs. sint r) sdiv int (unat cores)), printed = [],
              allocated = [unat cores], forked = [unat cores]\<rparr>"
proof -
  let ?S = "\<lparr>pSrc = src, blockSize = len, fracBits = shift, nPE = cores\<rparr>"
  let ?cells = "map (fresh_cell rt) [0..<unat cores]"
  have n1: "1 < cores" using assms(2) by (simp add: word_less_nat_alt)
  have len: "length rs = unat cores"
    and parts: "\<forall>c<unat cores. worker_partial k ?S c = Inr (rs ! c)"
    using partials_nth [OF assms(4)] by blast+
  have "rt_team_fork (plp_rms_q8p_xpulpv2 k ?S) [0..<unat cores] (Some ?cells) = Inr (Some rs)"
    using len parts by (rule fork_fills) simp_all
  then show ?thesis
    using assms(1,3) n1
    by (simp add: plp_rms_q8_parallel_def rt_alloc_def collect_eq [OF assms(2) len])
qed

lemma parallel_one:
  assumes "rt_cluster_id rt \<noteq> ARCHI_FC_CID rt"
  shows "plp_rms_q8_parallel k rt src len shift 1 res
       = (case worker_partial k \<lparr>pSrc = src, blockSize = len, fracBits = shift, nPE = 1\<rparr> 0 of
            Inl e \<Rightarrow> Inl e
          | Inr r \<Rightarrow> Inr \<lparr>out = r, printed = [], allocated = [], forked = [1]\<rparr>)"
  using assms
  by (simp add: plp_rms_q8_parallel_def plp_rms_q8p_xpulpv2_def store_s8_def
      collect_def split: sum.splits)

lemma scenario2_partials:
  "map (worker_partial (plp_rms_q8s_rv32im unroll)
          \<lparr>pSrc = [1, 1, 1, 1, 1, 1, 1, 1], blockSize = 8, fracBits = 0, nPE = 2\<rparr>)
     [0..<unat (2 :: u8)] = map Inr [1, 1]"
proof -
  have "[0..<unat (2 :: u8)] = [0, 1]" by (simp add: upt_conv_Cons)
  then show ?thesis
    by (simp add: worker_partial_def worker_slice_def kernel_eq sq_sum_def sq_term_def)
qed

text \<open>
  Claim C4: called from a cluster context with \<open>nPE = 1\<close>, the dispatcher allocates no
  buffer, runs the one worker on the whole vector and leaves in the caller's cell exactly
  what the single-core kernel \<open>k\<close> stores for the same vector, block size and \<open>fracBits\<close>;
  it has a value exactly when the kernel has one.
\<close>

theorem parallel_one_core_is_kernel:
  assumes "rt_cluster_id rt \<noteq> ARCHI_FC_CID rt"
  shows "plp_rms_q8_parallel k rt src len shift 1 res
       = (case k src len shift of
            Inl e \<Rightarrow> Inl e
          | Inr r \<Rightarrow> Inr \<lparr>out = r, printed = [], allocated = [], forked = [1]\<rparr>)"
  using assms
  by (simp add: plp_rms_q8_parallel_def plp_rms_q8p_xpulpv2_def worker_partial_one store_s8_def
      collect_def split: sum.splits)

text \<open>
  Witness for C4: the vector \<open>[3, -4, 5]\<close> with \<open>fracBits = 0\<close> on cluster 0, with the
  RV32IM kernel as the single-core kernel. Kernel and dispatcher both give
  \<open>(9 + 16 + 25) / 3 = 16\<close>.
\<close>

theorem parallel_one_core_is_kernel_witness:
  "rt_cluster_id \<lparr>rt_cluster_id = 0, ARCHI_FC_CID = 32, alloc_succeeds = True,
                   fresh_cell = (\<lambda>i. 0)\<rparr>
     \<noteq> ARCHI_FC_CID \<lparr>rt_cluster_id = 0, ARCHI_FC_CID = 32, alloc_succeeds = True,
                        fresh_cell = (\<lambda>i. 0)\<rparr>
   \<and> plp_rms_q8s_rv32im False [3, - 4, 5] 3 0 = Inr 16
   \<and> plp_rms_q8_parallel (plp_rms_q8s_rv32im False)
        \<lparr>rt_cluster_id = 0, ARCHI_FC_CID = 32, alloc_succeeds = True, fresh_cell = (\<lambda>i. 0)\<rparr>
        [3, - 4, 5] 3 0 1 77
      = Inr \<lparr>out = 16, printed = [], allocated = [], forked = [1]\<rparr>"
proof -
  have k: "plp_rms_q8s_rv32im False [3, - 4, 5] 3 0 = Inr 16"
    by (simp add: kernel_eq sq_sum_def sq_term_def)
  show ?thesis
    using parallel_one_core_is_kernel [of
        "\<lparr>rt_cluster_id = 0, ARCHI_FC_CID = 32, alloc_succeeds = True, fresh_cell = (\<lambda>i. 0)\<rparr>"
        "plp_rms_q8s_rv32im False" "[3, - 4, 5]" 3 0 77]
    by (simp add: k)
qed

text \<open>
  Claim C7: called from the controller context (\<open>rt_cluster_id() = ARCHI_FC_CID\<close>), the
  dispatcher prints its diagnostic and returns: the caller's cell keeps its content, no
  buffer is allocated and no team is forked.
\<close>

theorem parallel_from_controller:
  assumes "rt_cluster_id rt = ARCHI_FC_CID rt"
  shows "plp_rms_q8_parallel k rt src len shift cores res
       = Inr \<lparr>out = res, printed = [diagnostic], allocated = [], forked = []\<rparr>"
  using assms by (simp add: plp_rms_q8_parallel_def)

text \<open>
  Witness for C7: a call with two cores from the controller, whose cluster identity is 32.
  The cell that held 77 still holds 77.
\<close>

theorem parallel_from_controller_witness:
  "rt_cluster_id \<lparr>rt_cluster_id = 32, ARCHI_FC_CID = 32, alloc_succeeds = True,
                   fresh_cell = (\<lambda>i. 0)\<rparr>
     = ARCHI_FC_CID \<lparr>rt_cluster_id = 32, ARCHI_FC_CID = 32, alloc_succeeds = True,
                      fresh_cell = (\<lambda>i. 0)\<rparr>
   \<and> plp_rms_q8_parallel (plp_rms_q8s_rv32im False)
        \<lparr>rt_cluster_id = 32, ARCHI_FC_CID = 32, alloc_succeeds = True, fresh_cell = (\<lambda>i. 0)\<rparr>
        [1, 1, 1, 1, 1, 1, 1, 1] 8 0 2 77
      = Inr \<lparr>out = 77, printed = [diagnostic], allocated = [], forked = []\<rparr>"
  using parallel_from_controller [of
      "\<lparr>rt_cluster_id = 32, ARCHI_FC_CID = 32, alloc_succeeds = True, fresh_cell = (\<lambda>i. 0)\<rparr>"
      "plp_rms_q8s_rv32im False" "[1, 1, 1, 1, 1, 1, 1, 1]" 8 0 2 77]
  by simp

text \<open>
  Claim C2: a call from a cluster context with \<open>nPE > 1\<close> whose allocation succeeds and
  whose workers all store a partial result leaves in the caller's cell the sum of the
  \<open>nPE\<close> partial results (an \<open>int32_t\<close> sum that cannot overflow) divided by \<open>nPE\<close>,
  truncated toward zero; the quotient fits the signed 8-bit cell. With \<open>nPE = 1\<close> the cell
  holds the partial result of the one worker, undivided. On the eight-sample vector of ones
  with \<open>fracBits = 0\<close> and two cores the result is \<open>(1 + 1) / 2 = 1\<close>.
\<close>

theorem parallel_reduction_average:
  assumes "rt_cluster_id rt \<noteq> ARCHI_FC_CID rt" "alloc_succeeds rt"
  shows "(1 < unat cores
            \<and> map (worker_partial k \<lparr>pSrc = src, blockSize = len, fracBits = shift, nPE = cores\<rparr>)
                  [0..<unat cores] = map Inr rs \<longrightarrow>
          plp_rms_q8_parallel k rt src len shift cores res
            = Inr \<lparr>out = word_of_int ((\<Sum>r\<leftarrow>rs. sint r) sdiv int (unat cores)), printed = [],
                   allocated = [unat cores], forked = [unat cores]\<rparr>
          \<and> sint (word_of_int ((\<Sum>r\<leftarrow>rs. sint r) sdiv int (unat cores)) :: s8)
              = (\<Sum>r\<leftarrow>rs. sint r) sdiv int (unat cores))
       \<and> (worker_partial k \<lparr>pSrc = src, blockSize = len, fracBits = shift, nPE = 1\<rparr> 0 = Inr r \<longrightarrow>
          plp_rms_q8_parallel k rt src len shift 1 res
            = Inr \<lparr>out = r, printed = [], allocated = [], forked = [1]\<rparr>)
       \<and> plp_rms_q8_parallel (plp_rms_q8s_rv32im unroll) rt [1, 1, 1, 1, 1, 1, 1, 1] 8 0 2 res
            = Inr \<lparr>out = 1, printed = [], allocated = [2], forked = [2]\<rparr>"
proof (intro conjI impI)
  assume h: "1 < unat cores
      \<and> map (worker_partial k \<lparr>pSrc = src, blockSize = len, fracBits = shift, nPE = cores\<rparr>)
            [0..<unat cores] = map Inr rs"
  then have n: "1 < unat cores" and m: "map (worker_partial k
      \<lparr>pSrc = src, blockSize = len, fracBits = shift, nPE = cores\<rparr>) [0..<unat cores] = map Inr rs"
    by blast+
  show "plp_rms_q8_parallel k rt src len shift cores res
      = Inr \<lparr>out = word_of_int ((\<Sum>r\<leftarrow>rs. sint r) sdiv int (unat cores)), printed = [],
             allocated = [unat cores], forked = [unat cores]\<rparr>"
    using assms(1) n assms(2) m by (rule parallel_many)
  have "length rs = unat cores" using partials_nth(1) [OF m] .
  with n show "sint (word_of_int ((\<Sum>r\<leftarrow>rs. sint r) sdiv int (unat cores)) :: s8)
      = (\<Sum>r\<leftarrow>rs. sint r) sdiv int (unat cores)"
    by (rule avg_fits)
next
  assume "worker_partial k \<lparr>pSrc = src, blockSize = len, fracBits = shift, nPE = 1\<rparr> 0 = Inr r"
  then show "plp_rms_q8_parallel k rt src len shift 1 res
      = Inr \<lparr>out = r, printed = [], allocated = [], forked = [1]\<rparr>"
    by (simp add: parallel_one [OF assms(1)])
next
  have "plp_rms_q8_parallel (plp_rms_q8s_rv32im unroll) rt [1, 1, 1, 1, 1, 1, 1, 1] 8 0 2 res
      = Inr \<lparr>out = word_of_int ((\<Sum>r\<leftarrow>[1, 1 :: s8]. sint r) sdiv int (unat (2 :: u8))),
             printed = [], allocated = [unat (2 :: u8)], forked = [unat (2 :: u8)]\<rparr>"
    using assms(1) _ assms(2) scenario2_partials by (rule parallel_many) simp
  then show "plp_rms_q8_parallel (plp_rms_q8s_rv32im unroll) rt [1, 1, 1, 1, 1, 1, 1, 1] 8 0 2 res
      = Inr \<lparr>out = 1, printed = [], allocated = [2], forked = [2]\<rparr>"
    by simp
qed

text \<open>
  Witness for C2: six samples on two cores with \<open>fracBits = 2\<close>. The partial results are
  the bytes 171 (that is \<open>-85\<close>) and 0; their sum \<open>-85\<close> divided by 2 and truncated toward
  zero is \<open>-42\<close>, the byte 214.
\<close>

theorem parallel_reduction_average_witness:
  "rt_cluster_id \<lparr>rt_cluster_id = 0, ARCHI_FC_CID = 32, alloc_succeeds = True,
                   fresh_cell = (\<lambda>i. 0)\<rparr>
     \<noteq> ARCHI_FC_CID \<lparr>rt_cluster_id = 0, ARCHI_FC_CID = 32, alloc_succeeds = True,
                        fresh_cell = (\<lambda>i. 0)\<rparr>
   \<and> alloc_succeeds \<lparr>rt_cluster_id = 0, ARCHI_FC_CID = 32, alloc_succeeds = True,
                       fresh_cell = (\<lambda>i. 0)\<rparr>
   \<and> 1 < unat (2 :: u8)
   \<and> map (worker_partial (plp_rms_q8s_rv32im False)
            \<lparr>pSrc = [- 128, - 128, 3, 1, 1, 1], blockSize = 6, fracBits = 2, nPE = 2\<rparr>)
        [0..<unat (2 :: u8)] = map Inr [171, 0]
   \<and> plp_rms_q8_parallel (plp_rms_q8s_rv32im False)
        \<lparr>rt_cluster_id = 0, ARCHI_FC_CID = 32, alloc_succeeds = True, fresh_cell = (\<lambda>i. 0)\<rparr>
        [- 128, - 128, 3, 1, 1, 1] 6 2 2 77
      = Inr \<lparr>out = 214, printed = [], allocated = [2], forked = [2]\<rparr>
   \<and> sint (214 :: s8) = - 42"
proof -
  have u: "[0..<unat (2 :: u8)] = [0, 1]" by (simp add: upt_conv_Cons)
  have p: "map (worker_partial (plp_rms_q8s_rv32im False)
            \<lparr>pSrc = [- 128, - 128, 3, 1, 1, 1], blockSize = 6, fracBits = 2, nPE = 2\<rparr>)
        [0..<unat (2 :: u8)] = map Inr [171, 0]"
    unfolding u by (simp add: worker_partial_def worker_slice_def kernel_eq sq_sum_def sq_term_def)
  show ?thesis
    using parallel_reduction_average [of
        "\<lparr>rt_cluster_id = 0, ARCHI_FC_CID = 32, alloc_succeeds = True, fresh_cell = (\<lambda>i. 0)\<rparr>"
        2 "plp_rms_q8s_rv32im False" "[- 128, - 128, 3, 1, 1, 1]" 6 2 "[171, 0]" 77] p
    by simp
qed

text \<open>
  Claim C5 at the input of one sample and three cores, called from cluster 0: the slice of
  the core 1 starts at offset 1 and has one sample, so it lies outside the vector, its
  kernel reads past the end, and the call has no defined result. The code neither gives the
  cores beyond the block an empty slice nor rejects the call.
\<close>

theorem parallel_more_cores_than_samples:
  "worker_slice \<lparr>pSrc = [1], blockSize = 1, fracBits = 0, nPE = 3\<rparr> 1 = Inr (1, 1)
   \<and> worker_partial (plp_rms_q8s_rv32im False)
        \<lparr>pSrc = [1], blockSize = 1, fracBits = 0, nPE = 3\<rparr> 1 = Inl OutOfBounds
   \<and> plp_rms_q8_parallel (plp_rms_q8s_rv32im False)
        \<lparr>rt_cluster_id = 0, ARCHI_FC_CID = 32, alloc_succeeds = True, fresh_cell = (\<lambda>i. 0)\<rparr>
        [1] 1 0 3 77
      = Inl OutOfBounds"
proof -
  have u: "[0..<3] = [0, 1, 2 :: nat]" by code_simp
  have k0: "plp_rms_q8s_rv32im False [1] 1 0 = Inr 1"
    by (simp add: kernel_eq sq_sum_def sq_term_def)
  have k1: "plp_rms_q8s_rv32im False [] 1 0 = Inl OutOfBounds"
    by (simp add: plp_rms_q8s_rv32im_def rms_accu_def rms_loop.simps accumulate_def load_s8_def)
  show ?thesis
    by (simp add: plp_rms_q8_parallel_def rt_alloc_def u plp_rms_q8p_xpulpv2_def
        worker_partial_def worker_slice_def k0 k1 store_s8_def)
qed

lemma parallel_one_zero_block:
  assumes "rt_cluster_id rt \<noteq> ARCHI_FC_CID rt"
  shows "plp_rms_q8_parallel (plp_rms_q8s_rv32im unroll) rt src 0 shift 1 res = Inl DivisionByZero"
  by (simp add: parallel_one [OF assms] worker_partial_one kernel_zero_block)

lemma worker_no_cores:
  assumes "nPE S = 0"
  shows "worker_slice S c = Inl DivisionByZero"
    and "plp_rms_q8p_xpulpv2 k S c buf = Inl DivisionByZero"
  using assms by (simp_all add: worker_slice_def worker_partial_def plp_rms_q8p_xpulpv2_def)

lemma fork_no_cores:
  assumes "nPE S = 0" "team \<noteq> []"
  shows "rt_team_fork (plp_rms_q8p_xpulpv2 k S) team buf = Inl DivisionByZero"
  using assms by (cases team) (simp_all add: worker_no_cores(2))

text \<open>
  Claim C6, as the code has it: no argument is checked and nothing is reported. With
  \<open>blockSize = 0\<close> the single-core kernel runs no round of its loop and then divides by
  zero, which is undefined, and so does a call of the dispatcher from a cluster context
  with one core. With \<open>nPE = 0\<close> every worker that runs divides by zero when it computes
  \<open>blockSizeP\<close>, whatever its core, its kernel and the results buffer, so the fork of any
  team that has a member ends in that division. Which team the runtime starts for a size
  of 0 is the runtime's matter, and nothing is said about it.
\<close>

theorem no_argument_check:
  "plp_rms_q8s_rv32im unroll src 0 fb = Inl DivisionByZero
   \<and> (rt_cluster_id rt \<noteq> ARCHI_FC_CID rt \<longrightarrow>
        plp_rms_q8_parallel (plp_rms_q8s_rv32im unroll) rt src 0 shift 1 res = Inl DivisionByZero)
   \<and> (nPE S = 0 \<longrightarrow>
        worker_slice S c = Inl DivisionByZero
      \<and> plp_rms_q8p_xpulpv2 k S c buf = Inl DivisionByZero)
   \<and> (nPE S = 0 \<and> team \<noteq> [] \<longrightarrow>
        rt_team_fork (plp_rms_q8p_xpulpv2 k S) team buf = Inl DivisionByZero)"
  by (simp add: kernel_zero_block parallel_one_zero_block worker_no_cores fork_no_cores)

text \<open>
  Witness for C6: a call from cluster 0 with an empty block on one core, and the worker of
  core 0 with \<open>nPE = 0\<close>, alone and as the one member of a team. All three end in the
  division by zero.
\<close>

theorem no_argument_check_witness:
  "rt_cluster_id \<lparr>rt_cluster_id = 0, ARCHI_FC_CID = 32, alloc_succeeds = True,
                   fresh_cell = (\<lambda>i. 0)\<rparr>
     \<noteq> ARCHI_FC_CID \<lparr>rt_cluster_id = 0, ARCHI_FC_CID = 32, alloc_succeeds = True,
                        fresh_cell = (\<lambda>i. 0)\<rparr>
   \<and> nPE \<lparr>pSrc = [5, 6], blockSize = 2, fracBits = 0, nPE = 0\<rparr> = 0
   \<and> [0 :: nat] \<noteq> []
   \<and> plp_rms_q8_parallel (plp_rms_q8s_rv32im True)
        \<lparr>rt_cluster_id = 0, ARCHI_FC_CID = 32, alloc_succeeds = True, fresh_cell = (\<lambda>i. 0)\<rparr>
        [5, 6] 0 0 1 77
      = Inl DivisionByZero
   \<and> plp_rms_q8p_xpulpv2 (plp_rms_q8s_rv32im True)
        \<lparr>pSrc = [5, 6], blockSize = 2, fracBits = 0, nPE = 0\<rparr> 0 (Some [77])
      = Inl DivisionByZero
   \<and> rt_team_fork (plp_rms_q8p_xpulpv2 (plp_rms_q8s_rv32im True)
          \<lparr>pSrc = [5, 6], blockSize = 2, fracBits = 0, nPE = 0\<rparr>) [0] (Some [77])
      = Inl DivisionByZero"
  using no_argument_check [where unroll = True and src = "[5, 6]" and shift = 0 and res = 77
      and k = "plp_rms_q8s_rv32im True" and c = 0 and buf = "Some [77]" and team = "[0]"
      and S = "\<lparr>pSrc = [5, 6], blockSize = 2, fracBits = 0, nPE = 0\<rparr>" and rt =
      "\<lparr>rt_cluster_id = 0, ARCHI_FC_CID = 32, alloc_succeeds = True, fresh_cell = (\<lambda>i. 0)\<rparr>"]
  by simp

text \<open>
  Counterexample to C6 as stated: the kernel on an empty block ends in the division by
  zero of \<open>accu / blockSize\<close>, so does the dispatcher called from cluster 0 with an empty
  block on one core, and the worker of core 0 with \<open>nPE = 0\<close> on the eight-sample vector
  of ones divides by zero at \<open>blockSizeP\<close>. None of them reports an invalid argument
  before it computes.
\<close>

theorem invalid_argument_counterexample:
  "plp_rms_q8s_rv32im False [] 0 0 = Inl DivisionByZero
   \<and> plp_rms_q8_parallel (plp_rms_q8s_rv32im False)
        \<lparr>rt_cluster_id = 0, ARCHI_FC_CID = 32, alloc_succeeds = True, fresh_cell = (\<lambda>i. 0)\<rparr>
        [] 0 0 1 77
      = Inl DivisionByZero
   \<and> plp_rms_q8p_xpulpv2 (plp_rms_q8s_rv32im False)
        \<lparr>pSrc = [1, 1, 1, 1, 1, 1, 1, 1], blockSize = 8, fracBits = 0, nPE = 0\<rparr> 0 (Some [77])
      = Inl DivisionByZero"
  by (simp add: kernel_zero_block parallel_one_zero_block worker_no_cores)

section \<open>The complex conjugate kernel\<close>

lemma sign_flip: "(if even i then 1 else - 1 :: s8) * (- 1) = (if even (Suc i) then 1 else - 1)"
  by simp

lemma sign_is_one: "(if even i then 1 else - 1 :: s8) = 1 \<longleftrightarrow> even i"
  by simp

lemma conj_loop_step:
  assumes "0 < blkCnt" "i < length src"
  shows "conj_loop src i blkCnt (if even i then 1 else - 1) dst
       = conj_loop src (Suc i) (blkCnt - 1) (if even (Suc i) then 1 else - 1)
           (dst @ [conj_cell i (src ! i)])"
proof -
  have v: "(if (if even i then 1 else - 1 :: s8) = 1 then src ! i
            else if src ! i = INT8_MIN then INT8_MAX else - src ! i)
         = conj_cell i (src ! i)"
    by (simp add: conj_cell_def INT8_MIN_def INT8_MAX_def)
  show ?thesis
    using assms
    by (subst conj_loop.simps) (simp only: if_True Let_def v sign_flip add_Suc_right
        Suc_eq_plus1 [symmetric] add_0_right)
qed

lemma conj_loop_eq:
  assumes "i + unat blkCnt \<le> length src"
  shows "conj_loop src i blkCnt (if even i then 1 else - 1) dst
       = Inr (dst @ map (\<lambda>j. conj_cell j (src ! j)) [i..<i + unat blkCnt])"
  using assms
proof (induction "unat blkCnt" arbitrary: i blkCnt dst)
  case 0
  then have "blkCnt = 0" by (simp add: unat_0_iff)
  then show ?case by (subst conj_loop.simps) simp
next
  case (Suc n)
  then have pos: "0 < blkCnt" by (auto simp: word_greater_zero_iff)
  have dec: "unat (blkCnt - 1) = n"
    using Suc.hyps(2) pos by (simp add: unat_minus_one word_greater_zero_iff)
  have lt: "i < length src" using Suc.prems Suc.hyps(2) by simp
  have le: "Suc i + unat (blkCnt - 1) \<le> length src" using Suc.prems Suc.hyps(2) dec by simp
  have ih: "conj_loop src (Suc i) (blkCnt - 1) (if even (Suc i) then 1 else - 1) d
      = Inr (d @ map (\<lambda>j. conj_cell j (src ! j)) [Suc i..<Suc i + unat (blkCnt - 1)])" for d
    using dec le by (intro Suc.hyps(1)) simp_all
  have "[i..<i + unat blkCnt] = i # [Suc i..<Suc i + unat (blkCnt - 1)]"
    using Suc.hyps(2) [symmetric] dec by (simp add: upt_conv_Cons)
  then show ?case
    unfolding conj_loop_step [OF pos lt] ih by simp
qed

lemma conj_kernel_eq:
  assumes "length src = 2 * unat numSamples" "length src < 4294967296"
  shows "plp_cmplx_conj_i8_rv32im src numSamples = Inr (conj_spec src)"
proof -
  have "unat numSamples * unat (2 :: u32) < 2 ^ LENGTH(32)" using assms by simp
  then have "unat (numSamples * 2) = unat numSamples * unat (2 :: u32)"
    by (simp only: unat_mult_lem)
  then have u: "unat (2 * numSamples) = length src" using assms(1) by (simp add: mult.commute)
  have "conj_loop src 0 (2 * numSamples) (if even (0 :: nat) then 1 else - 1) []
      = Inr ([] @ map (\<lambda>j. conj_cell j (src ! j)) [0..<0 + unat (2 * numSamples)])"
    by (rule conj_loop_eq) (simp add: u)
  then show ?thesis
    by (simp add: plp_cmplx_conj_i8_rv32im_def conj_spec_def u)
qed

lemma sint_neg_s8:
  assumes "x \<noteq> (- 128 :: s8)"
  shows "sint (- x) = - sint x"
proof -
  have "sint x \<noteq> - 128"
  proof
    assume "sint x = - 128"
    then have "word_of_int (sint x) = (word_of_int (- 128) :: s8)" by simp
    then have "x = - 128" by simp
    with assms show False by simp
  qed
  with sint_s8_bounds [of x] have "- 128 \<le> - sint x" "- sint x \<le> 127" by linarith+
  then have "sint (word_of_int (- sint x) :: s8) = - sint x" by (rule sint_s8_of_int)
  moreover have "(word_of_int (- sint x) :: s8) = - x" by simp
  ultimately show ?thesis by simp
qed

lemma conj_spec_nth:
  "i < length xs \<Longrightarrow> conj_spec xs ! i = conj_cell i (xs ! i)"
  by (simp add: conj_spec_def)

lemma conj_spec_length: "length (conj_spec xs) = length xs"
  by (simp add: conj_spec_def)

lemma conj_twice_differs:
  assumes "i < length xs" "odd i" "xs ! i = - 128"
  shows "conj_spec (conj_spec xs) \<noteq> xs"
proof
  assume eq: "conj_spec (conj_spec xs) = xs"
  have "conj_spec (conj_spec xs) ! i = conj_cell i (conj_cell i (xs ! i))"
    using assms(1) by (simp add: conj_spec_nth conj_spec_length)
  also have "\<dots> = - 127" using assms(2,3) by (simp add: conj_cell_def)
  finally have "xs ! i = - 127" using eq by simp
  with assms(3) show False by simp
qed

text \<open>
  Claim C9. The input vector holds the \<open>2 * numSamples\<close> interleaved values and lies in the
  32-bit address space, so the counter \<open>blkCnt = 2 * numSamples\<close> does not wrap. The kernel
  then writes a vector of the same length: every cell at an even place (a real part) is
  copied; every cell at an odd place (an imaginary part) is negated, \<open>sint\<close> reading the
  result as the arithmetic negation, but for the value \<open>-128\<close>, which becomes 127. So the
  kernel applied to its own output does not give back a vector with \<open>-128\<close> at an odd place.
\<close>

theorem conj_kernel_negates_imaginary:
  assumes "length src = 2 * unat numSamples" "length src < 4294967296"
  shows "\<exists>dst. plp_cmplx_conj_i8_rv32im src numSamples = Inr dst
           \<and> length dst = length src
           \<and> (\<forall>i<length src.
                 (even i \<longrightarrow> dst ! i = src ! i)
               \<and> (odd i \<and> src ! i \<noteq> - 128 \<longrightarrow>
                     dst ! i = - (src ! i) \<and> sint (dst ! i) = - sint (src ! i))
               \<and> (odd i \<and> src ! i = - 128 \<longrightarrow> dst ! i = 127))
           \<and> ((\<exists>i<length src. odd i \<and> src ! i = - 128) \<longrightarrow>
                 (\<exists>again. plp_cmplx_conj_i8_rv32im dst numSamples = Inr again \<and> again \<noteq> src))"
proof -
  let ?dst = "conj_spec src"
  have run: "plp_cmplx_conj_i8_rv32im src numSamples = Inr ?dst"
    using assms by (rule conj_kernel_eq)
  have len: "length ?dst = length src" by (rule conj_spec_length)
  have cells: "\<forall>i<length src.
        (even i \<longrightarrow> ?dst ! i = src ! i)
      \<and> (odd i \<and> src ! i \<noteq> - 128 \<longrightarrow>
            ?dst ! i = - (src ! i) \<and> sint (?dst ! i) = - sint (src ! i))
      \<and> (odd i \<and> src ! i = - 128 \<longrightarrow> ?dst ! i = 127)"
    by (simp add: conj_spec_nth conj_cell_def sint_neg_s8)
  have twice: "\<exists>again. plp_cmplx_conj_i8_rv32im ?dst numSamples = Inr again \<and> again \<noteq> src"
    if "\<exists>i<length src. odd i \<and> src ! i = - 128"
  proof -
    from that obtain i where i: "i < length src" "odd i" "src ! i = - 128" by blast
    have "plp_cmplx_conj_i8_rv32im ?dst numSamples = Inr (conj_spec ?dst)"
      using assms by (intro conj_kernel_eq) (simp_all add: conj_spec_length)
    moreover have "conj_spec ?dst \<noteq> src" using i by (rule conj_twice_differs)
    ultimately show ?thesis by blast
  qed
  have undo: "(\<exists>i<length src. odd i \<and> src ! i = - 128) \<longrightarrow>
      (\<exists>again. plp_cmplx_conj_i8_rv32im ?dst numSamples = Inr again \<and> again \<noteq> src)"
    using twice by (rule impI)
  show ?thesis
    by (rule exI [of _ ?dst]) (rule conjI run len cells undo)+
qed

text \<open>
  Witness for C9: two complex samples \<open>1 + 2j\<close> and \<open>3 - 128j\<close>. The kernel gives
  \<open>[1, -2, 3, 127]\<close>, and applied once more \<open>[1, 2, 3, -127]\<close>, which is not the input.
\<close>

theorem conj_kernel_negates_imaginary_witness:
  "length [1, 2, 3, - 128 :: s8] = 2 * unat (2 :: u32)
     \<and> length [1, 2, 3, - 128 :: s8] < 4294967296
     \<and> (\<exists>i<length [1, 2, 3, - 128 :: s8]. odd i \<and> [1, 2, 3, - 128 :: s8] ! i = - 128)
     \<and> plp_cmplx_conj_i8_rv32im [1, 2, 3, - 128] 2 = Inr [1, - 2, 3, 127]
     \<and> plp_cmplx_conj_i8_rv32im [1, - 2, 3, 127] 2 = Inr [1, 2, 3, - 127]
     \<and> (\<exists>dst again. plp_cmplx_conj_i8_rv32im [1, 2, 3, - 128] 2 = Inr dst
            \<and> plp_cmplx_conj_i8_rv32im dst 2 = Inr again \<and> again \<noteq> [1, 2, 3, - 128])"
proof -
  have three: "\<exists>i<length [1, 2, 3, - 128 :: s8]. odd i \<and> [1, 2, 3, - 128 :: s8] ! i = - 128"
    by (rule exI [of _ 3]) simp
  have up: "[0..<4] = [0, 1, 2, 3 :: nat]" by code_simp
  have a: "plp_cmplx_conj_i8_rv32im [1, 2, 3, - 128] 2 = Inr [1, - 2, 3, 127]"
    by (simp add: conj_kernel_eq conj_spec_def conj_cell_def up)
  have b: "plp_cmplx_conj_i8_rv32im [1, - 2, 3, 127] 2 = Inr [1, 2, 3, - 127]"
    by (simp add: conj_kernel_eq conj_spec_def conj_cell_def up)
  have "\<exists>dst. plp_cmplx_conj_i8_rv32im [1, 2, 3, - 128] 2 = Inr dst
      \<and> (\<exists>again. plp_cmplx_conj_i8_rv32im dst 2 = Inr again \<and> again \<noteq> [1, 2, 3, - 128])"
    using conj_kernel_negates_imaginary [of "[1, 2, 3, - 128]" 2] three by auto
  then have c: "\<exists>dst again. plp_cmplx_conj_i8_rv32im [1, 2, 3, - 128] 2 = Inr dst
      \<and> plp_cmplx_conj_i8_rv32im dst 2 = Inr again \<and> again \<noteq> [1, 2, 3, - 128]"
    by blast
  show ?thesis using three a b c by simp
qed

end
